theory Spec2Isabelle
  imports Complex_Main "HOL-Library.Multiset" "HOL-Library.Log_Nat"
begin

section \<open>Flippin: the room state machine of the card-matching server\<close>

text \<open>
  The server keeps one shared room, \<open>rooms['default']\<close>, a JavaScript object that the
  socket handlers, the one-second timer callback and the deferred flip-back callback all
  mutate. A rematch replaces the object; callbacks created earlier keep the object they
  captured. The model therefore keeps every room object ever allocated in a store
  (\<open>heap\<close>, addressed by position), the registry entry \<open>rooms\<close> as an address, and the
  live \<open>setInterval\<close> and pending \<open>setTimeout\<close> closures with the address they captured.
  Everything a handler emits through Socket.IO is returned as a list of events.
\<close>

subsection \<open>Data\<close>

record card =
  pairId :: nat
  animal :: string
  emoji :: string
  revealed :: bool
  matched :: bool

record player =
  id_p :: string
  name :: string
  matches :: int
  asked :: int
  extra :: int
  prevMatches :: int

record timer =
  remaining :: int
  running :: bool
  intervalId :: "nat option"

text \<open>Log entries: \<open>{type:'info', text}\<close>, \<open>{type:'q', by, text}\<close>, \<open>{type:'a', by, text}\<close>.\<close>

datatype logentry = Info string | Q string string | A string string

record room =
  id_r :: string
  cards :: "card list"
  players :: "player list"
  flipped :: "nat list"
  currentPlayer :: int
  timer :: timer
  log_r :: "logentry list"
  gameOver :: bool

text \<open>
  What the server sends. \<open>ToRoom\<close> is \<open>io.to(ROOM_ID)\<close>, every socket that joined the
  room; \<open>ToSocket\<close> is \<open>io.to(socketId)\<close>, \<open>socket.emit\<close> or the acknowledgement
  callback \<open>cb\<close> of one socket.
\<close>

datatype target = ToRoom string | ToSocket string

datatype msg =
    State "card list" "(string \<times> int \<times> int \<times> int) list" int "int \<times> bool" "logentry list"
  | TimerMsg int
  | TimeUp
  | TimerPaused
  | GameOverMsg string
  | AskQuestionMsg int
  | QuestionForAnswer string string
  | QuestionAnswered string string
  | GameReset
  | RoomAssigned string
  | Ack bool "string option"

type_synonym event = "target \<times> msg"

text \<open>
  The process state. \<open>intervals\<close> holds the live interval tasks as (handle, captured
  room); \<open>timeouts\<close> the pending flip-back closures, oldest first, as (delay in ms,
  captured room, index of cardA, index of cardB): the closure captures the two card
  objects, which are the cards at these positions of the captured room's array.
\<close>

record server =
  heap :: "room list"
  rooms :: "nat option"
  intervals :: "(nat \<times> nat) list"
  timeouts :: "(nat \<times> nat \<times> nat \<times> nat) list"
  nextHandle :: nat

text \<open>
  Reading a property of \<open>undefined\<close> throws a TypeError; nothing catches it, so the
  Node process ends. The events emitted before the throw are kept with the error.
\<close>

datatype error = TypeError

type_synonym 'a result = "(error \<times> event list) + ('a \<times> event list)"

subsection \<open>Constants and helpers\<close>

definition ROOM_ID :: string where
  "ROOM_ID = ''default''"

definition ANIMALS :: "(string \<times> string) list" where
  "ANIMALS =
    [(''lion'', [CHR 0xF0, CHR 0x9F, CHR 0xA6, CHR 0x81]),
     (''elephant'', [CHR 0xF0, CHR 0x9F, CHR 0x90, CHR 0x98]),
     (''fox'', [CHR 0xF0, CHR 0x9F, CHR 0xA6, CHR 0x8A]),
     (''frog'', [CHR 0xF0, CHR 0x9F, CHR 0x90, CHR 0xB8]),
     (''cat'', [CHR 0xF0, CHR 0x9F, CHR 0x90, CHR 0xB1]),
     (''dog'', [CHR 0xF0, CHR 0x9F, CHR 0x90, CHR 0xB6]),
     (''panda'', [CHR 0xF0, CHR 0x9F, CHR 0x90, CHR 0xBC]),
     (''rabbit'', [CHR 0xF0, CHR 0x9F, CHR 0x90, CHR 0xB0]),
     (''tiger'', [CHR 0xF0, CHR 0x9F, CHR 0x90, CHR 0xAF]),
     (''bear'', [CHR 0xF0, CHR 0x9F, CHR 0x90, CHR 0xBB])]"

text \<open>\<open>Array.prototype.findIndex\<close>: the first position that satisfies \<open>P\<close>, or \<open>-1\<close>.\<close>

fun findIndex :: "('a \<Rightarrow> bool) \<Rightarrow> 'a list \<Rightarrow> int" where
  "findIndex P [] = - 1"
| "findIndex P (x # xs) =
     (if P x then 0 else (let k = findIndex P xs in if k = - 1 then - 1 else k + 1))"

text \<open>
  \<open>[arr[i], arr[j]] = [arr[j], arr[i]]\<close>: both elements are read, then both are
  written.
\<close>

definition swap :: "nat \<Rightarrow> nat \<Rightarrow> 'a list \<Rightarrow> 'a list" where
  "swap i j arr = arr[i := arr ! j, j := arr ! i]"

text \<open>
  JavaScript numbers are IEEE 754 doubles; a finite double is modelled as the rational
  it denotes. The doubles in the binade \<open>2^e \<le> q < 2^(e+1)\<close> are the multiples of
  \<open>2^(e-52)\<close>; below \<open>2^(-1022)\<close> (the subnormal numbers) they are the multiples of
  \<open>2^(-1074)\<close>. \<open>binade q\<close> is that \<open>e\<close> for a positive \<open>q\<close>, and \<open>ulp q\<close> the distance
  between neighbouring doubles there (\<open>4503599627370496\<close> is \<open>2^52\<close>).
\<close>

definition pow2 :: "int \<Rightarrow> rat" where
  "pow2 e = (if 0 \<le> e then 2 ^ nat e else 1 / 2 ^ nat (- e))"

definition binade :: "rat \<Rightarrow> int" where
  "binade q = (if 1 \<le> q then bitlen \<lfloor>q\<rfloor> - 1 else - bitlen (\<lceil>1 / q\<rceil> - 1))"

definition ulp :: "rat \<Rightarrow> rat" where
  "ulp q = pow2 (max (binade q) (- 1022)) / 4503599627370496"

text \<open>Rounding to the nearest integer, a tie to the even one.\<close>

definition roundEven :: "rat \<Rightarrow> int" where
  "roundEven x =
     (let n = \<lfloor>x\<rfloor>; r = x - of_int n
      in if r < 1 / 2 then n else if 1 / 2 < r then n + 1 else if even n then n else n + 1)"

text \<open>
  \<open>toDouble q\<close> is the double that an arithmetic operation returns when its exact
  result is \<open>q\<close>: the double nearest to \<open>q\<close>, with a tie going to the even significand.
  A result of magnitude \<open>2^1024\<close> or more would be \<open>Infinity\<close>; the products of the
  shuffle are below the length of the array, so that case is not modelled.
\<close>

definition toDouble :: "rat \<Rightarrow> rat" where
  "toDouble q =
     (if q = 0 then 0
      else sgn q * (of_int (roundEven (\<bar>q\<bar> / ulp \<bar>q\<bar>)) * ulp \<bar>q\<bar>))"

text \<open>
  \<open>shuffle\<close>: the loop \<open>for (i = arr.length - 1; i > 0; i--)\<close>. \<open>rnd i\<close> is the double
  that \<open>Math.random()\<close> returns in the iteration with index \<open>i\<close>. In
  \<open>j = Math.floor(Math.random() * (i + 1))\<close> the factor \<open>i + 1\<close> is exact, the product
  is the double multiplication, which rounds, and \<open>Math.floor\<close> is exact.
\<close>

fun shuffle_from :: "(nat \<Rightarrow> rat) \<Rightarrow> nat \<Rightarrow> 'a list \<Rightarrow> 'a list" where
  "shuffle_from rnd 0 arr = arr"
| "shuffle_from rnd (Suc k) arr =
     (let i = Suc k; j = nat \<lfloor>toDouble (rnd i * of_nat (i + 1))\<rfloor>
      in shuffle_from rnd k (swap i j arr))"

definition shuffle :: "(nat \<Rightarrow> rat) \<Rightarrow> 'a list \<Rightarrow> 'a list" where
  "shuffle rnd arr = shuffle_from rnd (length arr - 1) arr"

definition newCard :: "nat \<Rightarrow> string \<times> string \<Rightarrow> card" where
  "newCard i a =
     \<lparr>pairId = i, animal = fst a, emoji = snd a, revealed = False, matched = False\<rparr>"

text \<open>The loop of \<open>createNewGameState\<close> that pushes two cards for each animal.\<close>

fun pushPairs :: "nat \<Rightarrow> (string \<times> string) list \<Rightarrow> card list \<Rightarrow> card list" where
  "pushPairs i [] cs = cs"
| "pushPairs i (a # as) cs = pushPairs (Suc i) as (cs @ [newCard i a, newCard i a])"

definition createNewGameState :: "(nat \<Rightarrow> rat) \<Rightarrow> room" where
  "createNewGameState rnd =
     \<lparr>id_r = ''default'',
      cards = shuffle rnd (pushPairs 0 ANIMALS []),
      players = [],
      flipped = [],
      currentPlayer = 0,
      timer = \<lparr>remaining = 180, running = False, intervalId = None\<rparr>,
      log_r = [],
      gameOver = False\<rparr>"

definition questionsLeft :: "player \<Rightarrow> int" where
  "questionsLeft p = 5 + extra p - asked p"

definition isChat :: "logentry \<Rightarrow> bool" where
  "isChat item = (case item of Info _ \<Rightarrow> False | Q _ _ \<Rightarrow> True | A _ _ \<Rightarrow> True)"

definition snapshot :: "room \<Rightarrow> msg" where
  "snapshot r =
     State (cards r)
       (map (\<lambda>p. (name p, matches p, asked p, extra p)) (players r))
       (currentPlayer r)
       (remaining (timer r), running (timer r))
       (filter isChat (log_r r))"

text \<open>Mutating the room object stored at an address.\<close>

definition modify :: "nat \<Rightarrow> (room \<Rightarrow> room) \<Rightarrow> server \<Rightarrow> server" where
  "modify a f s = s\<lparr>heap := (heap s)[a := f (heap s ! a)]\<rparr>"

definition clearInterval :: "nat option \<Rightarrow> server \<Rightarrow> server" where
  "clearInterval h s = s\<lparr>intervals := filter (\<lambda>e. Some (fst e) \<noteq> h) (intervals s)\<rparr>"

definition ack :: "bool \<Rightarrow> string \<Rightarrow> bool \<Rightarrow> string option \<Rightarrow> event list" where
  "ack cb sid ok err = (if cb then [(ToSocket sid, Ack ok err)] else [])"

subsection \<open>The functions of the server\<close>

definition broadcastState :: "server \<Rightarrow> event list" where
  "broadcastState s =
     (case rooms s of
        None \<Rightarrow> []
      | Some a \<Rightarrow> [(ToRoom ROOM_ID, snapshot (heap s ! a))])"

definition startTimer :: "server \<Rightarrow> server" where
  "startTimer s =
     (case rooms s of
        None \<Rightarrow> s
      | Some a \<Rightarrow>
          if running (timer (heap s ! a)) then s
          else
            (let h = nextHandle s;
                 s1 = modify a (\<lambda>r. r\<lparr>timer := (timer r)\<lparr>running := True, intervalId := Some h\<rparr>\<rparr>) s
             in s1\<lparr>intervals := intervals s1 @ [(h, a)], nextHandle := Suc h\<rparr>))"

definition pauseTimer :: "server \<Rightarrow> server \<times> event list" where
  "pauseTimer s =
     (case rooms s of
        None \<Rightarrow> (s, [])
      | Some a \<Rightarrow>
          if \<not> running (timer (heap s ! a)) then (s, [])
          else
            (let s1 = clearInterval (intervalId (timer (heap s ! a))) s;
                 s2 = modify a (\<lambda>r. r\<lparr>timer := (timer r)\<lparr>running := False\<rparr>\<rparr>) s1
             in (s2, [(ToRoom ROOM_ID, TimerPaused)])))"

definition resumeTimer :: "server \<Rightarrow> server" where
  "resumeTimer s =
     (case rooms s of
        None \<Rightarrow> s
      | Some a \<Rightarrow> if running (timer (heap s ! a)) then s else startTimer s)"

text \<open>\<open>room.players[k]?.matches || 0\<close>\<close>

definition matchesOr0 :: "room \<Rightarrow> nat \<Rightarrow> int" where
  "matchesOr0 r k = (if k < length (players r) then matches (players r ! k) else 0)"

definition tieName :: string where
  "tieName = ''It's a tie!''"

text \<open>
  \<open>checkGameOver\<close>. Both branches read \<open>room.players[0].matches\<close> and
  \<open>room.players[1].matches\<close> without optional chaining in their first comparison, after
  \<open>gameOver\<close> has been set (and, in the first branch, the timer paused): with fewer
  than two players that read throws.
\<close>

definition checkGameOver :: "server \<Rightarrow> server result" where
  "checkGameOver s =
     (case rooms s of
        None \<Rightarrow> Inr (s, [])
      | Some a \<Rightarrow>
          (let room = heap s ! a in
           if gameOver room then Inr (s, [])
           else
             (let totalMatches = matchesOr0 room 0 + matchesOr0 room 1 in
              if totalMatches = 10 then
                (let (s1, ev1) = pauseTimer s;
                     s2 = modify a (\<lambda>r. r\<lparr>gameOver := True\<rparr>) s1
                 in if length (players room) < 2 then Inl (TypeError, ev1)
                    else
                      (let p0 = players room ! 0; p1 = players room ! 1;
                           winner = (if matches p0 > matches p1 then name p0 else name p1);
                           winner = (if matches p0 = matches p1 then tieName else winner)
                       in Inr (s2, ev1 @ [(ToRoom ROOM_ID, GameOverMsg winner)])))
              else if remaining (timer room) \<le> 0 then
                (let s2 = modify a (\<lambda>r. r\<lparr>gameOver := True\<rparr>) s
                 in if length (players room) < 2 then Inl (TypeError, [])
                    else
                      (let p0 = players room ! 0; p1 = players room ! 1;
                           winner = (if matches p0 > matches p1 then Some (name p0)
                                     else if matches p1 > matches p0 then Some (name p1)
                                     else None);
                           winner = (if matches p0 = matches p1 then Some tieName else winner)
                       in case winner of
                            None \<Rightarrow> Inr (s2, [])
                          | Some w \<Rightarrow> Inr (s2, [(ToRoom ROOM_ID, GameOverMsg w)])))
              else Inr (s, []))))"

text \<open>
  The callback of \<open>setInterval\<close> in \<open>startTimer\<close>, run for the interval with handle
  \<open>h\<close>. It works on the room \<open>r\<close> it captured, while \<open>broadcastState(roomId)\<close> and
  \<open>checkGameOver(roomId)\<close> look the registry up again. A handle that is not live runs
  nothing.
\<close>

definition tick :: "nat \<Rightarrow> server \<Rightarrow> server result" where
  "tick h s =
     (case map_of (intervals s) h of
        None \<Rightarrow> Inr (s, [])
      | Some a \<Rightarrow>
          (let s1 = modify a (\<lambda>r. r\<lparr>timer := (timer r)\<lparr>remaining := remaining (timer r) - 1\<rparr>\<rparr>) s;
               ev1 = [(ToRoom ROOM_ID, TimerMsg (remaining (timer (heap s1 ! a))))]
           in if remaining (timer (heap s1 ! a)) \<le> 0 then
                (let s2 = clearInterval (intervalId (timer (heap s1 ! a))) s1;
                     s3 = modify a (\<lambda>r. r\<lparr>timer := (timer r)\<lparr>running := False\<rparr>\<rparr>) s2;
                     s4 = modify a (\<lambda>r. r\<lparr>log_r := Info ''Time is up.'' # log_r r\<rparr>) s3;
                     ev2 = ev1 @ [(ToRoom ROOM_ID, TimeUp)] @ broadcastState s4
                 in case checkGameOver s4 of
                      Inl (e, ev3) \<Rightarrow> Inl (e, ev2 @ ev3)
                    | Inr (s5, ev3) \<Rightarrow> Inr (s5, ev2 @ ev3))
              else Inr (s1, ev1)))"

definition newPlayer :: "string \<Rightarrow> string \<Rightarrow> player" where
  "newPlayer sid playerName =
     \<lparr>id_p = sid, name = playerName, matches = 0, asked = 0, extra = 0, prevMatches = 0\<rparr>"

text \<open>
  The body of \<open>io.on('connection', ...)\<close> for the socket \<open>sid\<close>. \<open>playerName\<close> is the
  value computed at its first line (the name of the handshake query, or a generated
  one); \<open>rnd\<close> feeds the shuffle when the room has to be created.
\<close>

definition connection :: "string \<Rightarrow> string \<Rightarrow> (nat \<Rightarrow> rat) \<Rightarrow> server \<Rightarrow> server \<times> event list" where
  "connection sid playerName rnd s =
     (let s1 = (case rooms s of
                  Some a \<Rightarrow> s
                | None \<Rightarrow> s\<lparr>heap := heap s @ [createNewGameState rnd], rooms := Some (length (heap s))\<rparr>);
          a = the (rooms s1);
          s2 = (if length (players (heap s1 ! a)) < 2 \<and> find (\<lambda>p. id_p p = sid) (players (heap s1 ! a)) = None
                then modify a (\<lambda>r. r\<lparr>players := players r @ [newPlayer sid playerName],
                                       log_r := Info (playerName @ '' has joined.'') # log_r r\<rparr>) s1
                else s1);
          s3 = (if length (players (heap s2 ! a)) = 2 \<and> \<not> running (timer (heap s2 ! a)) \<and> \<not> gameOver (heap s2 ! a)
                then startTimer s2 else s2)
      in (s3, [(ToSocket sid, RoomAssigned ROOM_ID)] @ broadcastState s3))"

text \<open>\<open>{ ...p, name: playerNames[i], matches: 0, asked: 0, extra: 0, prevMatches: 0 }\<close>\<close>

definition resetPlayer :: "player \<Rightarrow> player" where
  "resetPlayer p = p\<lparr>name := name p, matches := 0, asked := 0, extra := 0, prevMatches := 0\<rparr>"

definition rematch :: "string \<Rightarrow> bool \<Rightarrow> (nat \<Rightarrow> rat) \<Rightarrow> server \<Rightarrow> server \<times> event list" where
  "rematch sid cb rnd s =
     (case rooms s of
        None \<Rightarrow> (s, ack cb sid False (Some ''No game found.''))
      | Some a \<Rightarrow>
          (let room = heap s ! a in
           if length (players room) \<noteq> 2 then (s, ack cb sid False (Some ''Waiting for opponent.''))
           else
             (let newGame = (createNewGameState rnd)\<lparr>players := map resetPlayer (players room)\<rparr>;
                  s1 = s\<lparr>heap := heap s @ [newGame], rooms := Some (length (heap s))\<rparr>;
                  s2 = startTimer s1
              in (s2, broadcastState s2 @ [(ToRoom ROOM_ID, GameReset)] @ ack cb sid True None))))"

definition setRevealed :: "bool \<Rightarrow> nat \<Rightarrow> card list \<Rightarrow> card list" where
  "setRevealed b i cs = cs[i := (cs ! i)\<lparr>revealed := b\<rparr>]"

definition setMatched :: "nat \<Rightarrow> card list \<Rightarrow> card list" where
  "setMatched i cs = cs[i := (cs ! i)\<lparr>matched := True\<rparr>]"

text \<open>
  The \<open>flip\<close> handler of socket \<open>sid\<close> with card index \<open>idx\<close>; \<open>cb\<close> tells whether the
  client passed an acknowledgement callback. \<open>room.cards[idx]\<close> is \<open>undefined\<close> outside
  the array. The first flipped index is read back from \<open>room.flipped\<close>: were it outside
  the array, \<open>cardA.pairId\<close> would throw.
\<close>

definition flip :: "string \<Rightarrow> nat \<Rightarrow> bool \<Rightarrow> server \<Rightarrow> server result" where
  "flip sid idx cb s =
     (case rooms s of
        None \<Rightarrow> Inr (s, [])
      | Some a \<Rightarrow>
          (let room = heap s ! a in
           if gameOver room then Inr (s, [])
           else
             (let playerIndex = findIndex (\<lambda>p. id_p p = sid) (players room) in
              if playerIndex = - 1 \<or> currentPlayer room \<noteq> playerIndex
              then Inr (s, ack cb sid False (Some ''Not your turn.''))
              else if \<not> idx < length (cards room) \<or> revealed (cards room ! idx)
                      \<or> matched (cards room ! idx) \<or> length (flipped room) \<ge> 2
              then Inr (s, [])
              else
                (let s1 = modify a (\<lambda>r. r\<lparr>cards := setRevealed True idx (cards r),
                                              flipped := flipped r @ [idx]\<rparr>) s;
                     ev1 = broadcastState s1;
                     room1 = heap s1 ! a
                 in if length (flipped room1) = 2 then
                      (let idxA = flipped room1 ! 0; idxB = flipped room1 ! 1 in
                       if \<not> idxA < length (cards room1) then Inl (TypeError, ev1)
                       else if pairId (cards room1 ! idxA) = pairId (cards room1 ! idxB) then
                         (let k = nat playerIndex;
                              s2 = modify a (\<lambda>r. r\<lparr>cards := setMatched idxA (setMatched idxB (cards r))\<rparr>) s1;
                              s3 = modify a (\<lambda>r. r\<lparr>players := (players r)[k := (players r ! k)\<lparr>matches := matches (players r ! k) + 1\<rparr>]\<rparr>) s2;
                              player = players (heap s3 ! a) ! k;
                              s4 = modify a (\<lambda>r. r\<lparr>log_r := Info (name player @ '' found a pair ('' @ animal (cards room1 ! idxA) @ '').'') # log_r r,
                                                       flipped := []\<rparr>) s3;
                              (s5, ev2) = pauseTimer s4;
                              ev3 = ev1 @ ev2 @ broadcastState s5
                                    @ [(ToSocket (id_p player), AskQuestionMsg (questionsLeft player))]
                          in case checkGameOver s5 of
                               Inl (e, ev4) \<Rightarrow> Inl (e, ev3 @ ev4)
                             | Inr (s6, ev4) \<Rightarrow> Inr (s6, ev3 @ ev4 @ ack cb sid True None))
                       else
                         Inr (s1\<lparr>timeouts := timeouts s1 @ [(900, a, idxA, idxB)]\<rparr>,
                              ev1 @ ack cb sid True None))
                    else Inr (s1, ev1 @ ack cb sid True None)))))"

text \<open>\<open>room.players[room.currentPlayer]?.name\<close> inside a template string.\<close>

definition nameOrUndefined :: "room \<Rightarrow> string" where
  "nameOrUndefined r =
     (if 0 \<le> currentPlayer r \<and> nat (currentPlayer r) < length (players r)
      then name (players r ! nat (currentPlayer r)) else ''undefined'')"

definition noMatchText :: "string \<Rightarrow> string" where
  "noMatchText nm = ''No match. It's now '' @ nm @ (CHR 0x27 # ''s turn.'')"

text \<open>
  The closure scheduled by the no-match branch, for the captured room at \<open>a\<close> and the
  captured cards at \<open>idxA\<close> and \<open>idxB\<close> of its array.
\<close>

definition flipBack :: "nat \<Rightarrow> nat \<Rightarrow> nat \<Rightarrow> server \<Rightarrow> server \<times> event list" where
  "flipBack a idxA idxB s =
     (let s1 = modify a (\<lambda>r. r\<lparr>cards := setRevealed False idxA (setRevealed False idxB (cards r)),
                                   flipped := [],
                                   currentPlayer := 1 - currentPlayer r\<rparr>) s;
          s2 = modify a (\<lambda>r. r\<lparr>log_r := Info (noMatchText (nameOrUndefined r)) # log_r r\<rparr>) s1
      in (s2, broadcastState s2))"

text \<open>The oldest pending timeout fires (all timeouts have the same delay).\<close>

definition fireTimeout :: "server \<Rightarrow> server \<times> event list" where
  "fireTimeout s =
     (case timeouts s of
        [] \<Rightarrow> (s, [])
      | (d, a, idxA, idxB) # rest \<Rightarrow> flipBack a idxA idxB (s\<lparr>timeouts := rest\<rparr>))"

definition askQuestion :: "string \<Rightarrow> string \<Rightarrow> bool \<Rightarrow> server \<Rightarrow> server \<times> event list" where
  "askQuestion sid text cb s =
     (case rooms s of
        None \<Rightarrow> (s, [])
      | Some a \<Rightarrow>
          (let room = heap s ! a in
           case find (\<lambda>p. id_p p = sid) (players room) of
             None \<Rightarrow> (s, [])
           | Some asker0 \<Rightarrow>
               (let k = nat (findIndex (\<lambda>p. id_p p = sid) (players room));
                    asker = asker0\<lparr>asked := asked asker0 + 1\<rparr>;
                    s1 = modify a (\<lambda>r. r\<lparr>players := (players r)[k := asker],
                                            log_r := Q (name asker) text # log_r r\<rparr>) s;
                    ev1 = (case find (\<lambda>p. id_p p \<noteq> sid) (players (heap s1 ! a)) of
                             None \<Rightarrow> []
                           | Some opponent \<Rightarrow>
                               [(ToSocket (id_p opponent), QuestionForAnswer (name asker) text)])
                in (s1, ev1 @ broadcastState s1 @ ack cb sid True None))))"

definition answerQuestion :: "string \<Rightarrow> string \<Rightarrow> bool \<Rightarrow> server \<Rightarrow> server \<times> event list" where
  "answerQuestion sid text cb s =
     (case rooms s of
        None \<Rightarrow> (s, [])
      | Some a \<Rightarrow>
          (let room = heap s ! a;
               by = (case find (\<lambda>p. id_p p = sid) (players room) of
                       None \<Rightarrow> ''Unknown''
                     | Some answerer \<Rightarrow> name answerer);
               s1 = modify a (\<lambda>r. r\<lparr>log_r := A by text # log_r r\<rparr>) s;
               ev1 = [(ToRoom ROOM_ID, QuestionAnswered by text)];
               s2 = (if \<not> gameOver (heap s1 ! a) then resumeTimer s1 else s1)
           in (s2, ev1 @ broadcastState s2 @ ack cb sid True None)))"

text \<open>\<open>players.splice(idx, 1)\<close>\<close>

definition splice1 :: "nat \<Rightarrow> 'a list \<Rightarrow> 'a list" where
  "splice1 k xs = take k xs @ drop (Suc k) xs"

definition disconnect :: "string \<Rightarrow> server \<Rightarrow> server \<times> event list" where
  "disconnect sid s =
     (case rooms s of
        None \<Rightarrow> (s, [])
      | Some a \<Rightarrow>
          (let room = heap s ! a; idx = findIndex (\<lambda>p. id_p p = sid) (players room) in
           if idx = - 1 then (s, [])
           else
             (let nm = name (players room ! nat idx);
                  s1 = modify a (\<lambda>r. r\<lparr>players := splice1 (nat idx) (players r),
                                          log_r := Info (nm @ '' has disconnected.'') # log_r r\<rparr>) s;
                  (s2, ev1) = pauseTimer s1;
                  s3 = (if length (players (heap s2 ! a)) < 2
                        then modify a (\<lambda>r. r\<lparr>gameOver := True\<rparr>) s2 else s2);
                  ev2 = ev1 @ broadcastState s3
              in if length (players (heap s3 ! a)) = 0 then
                   (let s4 = (case intervalId (timer (heap s3 ! a)) of
                                None \<Rightarrow> s3
                              | Some h \<Rightarrow> clearInterval (Some h) s3)
                    in (s4\<lparr>rooms := None\<rparr>, ev2))
                 else (s3, ev2))))"

subsection \<open>The server as a transition system\<close>

text \<open>
  What can happen to the process: a socket connects, a connected socket sends one of
  the five messages or disconnects, an interval fires, the oldest timeout fires.
\<close>

datatype input =
    Connect string string "nat \<Rightarrow> rat"
  | Rematch string bool "nat \<Rightarrow> rat"
  | Flip string nat bool
  | AskQuestion string string bool
  | AnswerQuestion string string bool
  | Disconnect string
  | Tick nat
  | Timeout

fun step :: "server \<Rightarrow> input \<Rightarrow> server result" where
  "step s (Connect sid playerName rnd) = Inr (connection sid playerName rnd s)"
| "step s (Rematch sid cb rnd) = Inr (rematch sid cb rnd s)"
| "step s (Flip sid idx cb) = flip sid idx cb s"
| "step s (AskQuestion sid text cb) = Inr (askQuestion sid text cb s)"
| "step s (AnswerQuestion sid text cb) = Inr (answerQuestion sid text cb s)"
| "step s (Disconnect sid) = Inr (disconnect sid s)"
| "step s (Tick h) = tick h s"
| "step s Timeout = Inr (fireTimeout s)"

text \<open>Running a sequence of inputs; an uncaught error ends the run.\<close>

fun exec :: "server \<Rightarrow> input list \<Rightarrow> server result" where
  "exec s [] = Inr (s, [])"
| "exec s (i # is) =
     (case step s i of
        Inl (e, ev) \<Rightarrow> Inl (e, ev)
      | Inr (s1, ev) \<Rightarrow>
          (case exec s1 is of
             Inl (e, ev') \<Rightarrow> Inl (e, ev @ ev')
           | Inr (s2, ev') \<Rightarrow> Inr (s2, ev @ ev')))"

definition init :: server where
  "init = \<lparr>heap = [], rooms = None, intervals = [], timeouts = [], nextHandle = 0\<rparr>"

inductive reachable :: "server \<Rightarrow> bool" where
  at_start: "reachable init"
| after_step: "reachable s \<Longrightarrow> step s i = Inr (s', ev) \<Longrightarrow> reachable s'"

section \<open>Notions used in the properties\<close>

subsection \<open>Draws and signals\<close>

text \<open>
  A rational is a double when rounding leaves it as it is. \<open>Math.random()\<close> returns a
  double in \<open>[0, 1)\<close>; then every \<open>j\<close> of the shuffle is at most \<open>i\<close>. The properties of
  the deck are stated for such draws.
\<close>

definition isDouble :: "rat \<Rightarrow> bool" where
  "isDouble q \<longleftrightarrow> toDouble q = q"

definition unitDraws :: "(nat \<Rightarrow> rat) \<Rightarrow> bool" where
  "unitDraws rnd = (\<forall>i. isDouble (rnd i) \<and> 0 \<le> rnd i \<and> rnd i < 1)"

text \<open>The number of game-over signals in a list of events.\<close>

definition isGameOverMsg :: "event \<Rightarrow> bool" where
  "isGameOverMsg e = (case snd e of GameOverMsg w \<Rightarrow> True | _ \<Rightarrow> False)"

definition declared :: "event list \<Rightarrow> nat" where
  "declared ev = length (filter isGameOverMsg ev)"

subsection \<open>The room updates of a flip and of the flip-back\<close>

text \<open>
  The three updates that \<open>flip\<close> and \<open>flipBack\<close> apply to a room, under a name:
  revealing a card and pushing its index; marking the pair, counting the match for the
  player at position \<open>k\<close>, logging it and emptying the flipped list; and turning the two
  cards face down again, emptying the flipped list and passing the turn.
\<close>

definition reveal :: "nat \<Rightarrow> room \<Rightarrow> room" where
  "reveal idx r = r\<lparr>cards := setRevealed True idx (cards r), flipped := flipped r @ [idx]\<rparr>"

definition isPair :: "nat \<Rightarrow> nat \<Rightarrow> nat \<Rightarrow> room \<Rightarrow> room" where
  "isPair k x idx r =
     (let ps = (players r)[k := (players r ! k)\<lparr>matches := matches (players r ! k) + 1\<rparr>]
      in r\<lparr>cards := setMatched x (setMatched idx (cards r)),
           players := ps,
           log_r := Info (name (ps ! k) @ '' found a pair ('' @ animal (cards r ! x) @ '').'') # log_r r,
           flipped := []\<rparr>)"

definition unreveal :: "nat \<Rightarrow> nat \<Rightarrow> room \<Rightarrow> room" where
  "unreveal x y r =
     r\<lparr>cards := setRevealed False x (setRevealed False y (cards r)),
       flipped := [],
       currentPlayer := 1 - currentPlayer r\<rparr>"

subsection \<open>Relations between a state and a later one\<close>

text \<open>
  A step is quiet when it leaves the registry entry alone or deletes it, leaves the
  pending timeouts and the number of room objects alone, and in every room object
  changes neither the cards nor the flipped list and does not clear \<open>gameOver\<close>.
  It keeps the clock when no room's remaining time changes.
\<close>

definition quiet :: "server \<Rightarrow> server \<Rightarrow> bool" where
  "quiet s s' \<longleftrightarrow>
     (rooms s' = rooms s \<or> rooms s' = None)
     \<and> timeouts s' = timeouts s
     \<and> length (heap s') = length (heap s)
     \<and> (\<forall>b. cards (heap s' ! b) = cards (heap s ! b)
            \<and> flipped (heap s' ! b) = flipped (heap s ! b)
            \<and> (gameOver (heap s ! b) \<longrightarrow> gameOver (heap s' ! b)))"

definition sameClock :: "server \<Rightarrow> server \<Rightarrow> bool" where
  "sameClock s s' \<longleftrightarrow> (\<forall>b. remaining (timer (heap s' ! b)) = remaining (timer (heap s ! b)))"

text \<open>
  A step has grown the store when it allocated one room object, with nothing flipped
  and the full time on its clock, registered it, and was quiet on the older objects.
\<close>

definition grown :: "server \<Rightarrow> server \<Rightarrow> bool" where
  "grown s s' \<longleftrightarrow>
     (rooms s' = Some (length (heap s)) \<or> rooms s' = None)
     \<and> timeouts s' = timeouts s
     \<and> length (heap s') = Suc (length (heap s))
     \<and> (\<forall>b<length (heap s). cards (heap s' ! b) = cards (heap s ! b)
            \<and> flipped (heap s' ! b) = flipped (heap s ! b)
            \<and> (gameOver (heap s ! b) \<longrightarrow> gameOver (heap s' ! b)))
     \<and> flipped (heap s' ! length (heap s)) = []
     \<and> remaining (timer (heap s' ! length (heap s))) = 180"

text \<open>
  A step stays in the same game when it allocates no room object, leaves the registry
  entry alone or deletes it, and clears no \<open>gameOver\<close>.
\<close>

definition sameGame :: "server \<Rightarrow> server \<Rightarrow> bool" where
  "sameGame s s' \<longleftrightarrow>
     (rooms s' = rooms s \<or> rooms s' = None)
     \<and> length (heap s') = length (heap s)
     \<and> (\<forall>b. gameOver (heap s ! b) \<longrightarrow> gameOver (heap s' ! b))"

text \<open>
  The number of games that can still be declared over: one when a room is registered
  and its \<open>gameOver\<close> is false, none otherwise.
\<close>

definition openGame :: "server \<Rightarrow> nat" where
  "openGame s =
     (case rooms s of None \<Rightarrow> 0 | Some a \<Rightarrow> if gameOver (heap s ! a) then 0 else 1)"

text \<open>
  Every room object of the earlier state is still there with as many cards, and each
  of its matched cards is still matched and has the revealed flag it had.
\<close>

definition keepsMatched :: "server \<Rightarrow> server \<Rightarrow> bool" where
  "keepsMatched s s' \<longleftrightarrow>
     length (heap s) \<le> length (heap s')
     \<and> (\<forall>a<length (heap s).
           length (cards (heap s' ! a)) = length (cards (heap s ! a))
           \<and> (\<forall>k<length (cards (heap s ! a)).
                 matched (cards (heap s ! a) ! k) \<longrightarrow>
                   matched (cards (heap s' ! a) ! k)
                   \<and> revealed (cards (heap s' ! a) ! k) = revealed (cards (heap s ! a) ! k)))"

subsection \<open>The invariant of the reachable states\<close>

text \<open>
  The registry entry points into the store. A registered room whose time has run out
  is game over. The flipped indices of every room are inside its deck and their cards
  unmatched. Every pending flip-back belongs to a room object whose flipped list is
  exactly its two cards, and no room object has two pending flip-backs.
\<close>

definition pointerOk :: "server \<Rightarrow> bool" where
  "pointerOk s = (case rooms s of None \<Rightarrow> True | Some a \<Rightarrow> a < length (heap s))"

definition expiredIsOver :: "server \<Rightarrow> bool" where
  "expiredIsOver s =
     (case rooms s of
        None \<Rightarrow> True
      | Some a \<Rightarrow> remaining (timer (heap s ! a)) \<le> 0 \<longrightarrow> gameOver (heap s ! a))"

definition flippedOk :: "room \<Rightarrow> bool" where
  "flippedOk r = (\<forall>x \<in> set (flipped r). x < length (cards r) \<and> \<not> matched (cards r ! x))"

definition pendingOk :: "server \<Rightarrow> bool" where
  "pendingOk s \<longleftrightarrow>
     distinct (map (\<lambda>e. fst (snd e)) (timeouts s))
     \<and> (\<forall>e \<in> set (timeouts s).
           fst (snd e) < length (heap s)
           \<and> flipped (heap s ! fst (snd e)) = [fst (snd (snd e)), snd (snd (snd e))])"

definition wellFormed :: "server \<Rightarrow> bool" where
  "wellFormed s \<longleftrightarrow>
     pointerOk s \<and> expiredIsOver s \<and> (\<forall>a<length (heap s). flippedOk (heap s ! a)) \<and> pendingOk s"

subsection \<open>Example runs\<close>

text \<open>
  Three sources of draws: \<open>noShuffle\<close> always returns \<open>31/32\<close>, which makes every \<open>j\<close>
  equal to \<open>i\<close> in an array of at most 32 elements, so that the deck stays in the order
  it was dealt (cards 0 and 1 are the two lions, 2 and 3 the two elephants, and so
  on); \<open>halves\<close> always returns one half; \<open>nearThird\<close> always returns the double
  \<open>6004799503160661 / 2^53\<close>, just below two thirds, whose product with 3 is not a
  double and rounds up to 2. \<open>after ins\<close> is the state of the server after the inputs
  \<open>ins\<close>, from the start of the process.
\<close>

definition noShuffle :: "nat \<Rightarrow> rat" where
  "noShuffle i = 31 / 32"

definition halves :: "nat \<Rightarrow> rat" where
  "halves i = 1 / 2"

definition nearThird :: "nat \<Rightarrow> rat" where
  "nearThird i = 6004799503160661 / 9007199254740992"

definition after :: "input list \<Rightarrow> server" where
  "after ins = (case exec init ins of Inr (s, ev) \<Rightarrow> s | Inl e \<Rightarrow> init)"

text \<open>
  Ann (socket A) and Bob (socket B) connect. Bob asks a question, Ann answers it and
  flips card 0; Ann flips cards 0 and 1, a pair, in a room of two and in a room that
  Cy (socket C) watches; Ann asks five questions.
\<close>

definition twoPlayers :: "input list" where
  "twoPlayers = [Connect ''A'' ''Ann'' noShuffle, Connect ''B'' ''Bob'' noShuffle]"

definition afterFirstFlip :: server where
  "afterFirstFlip =
     after (twoPlayers @ [AskQuestion ''B'' ''why'' True, AnswerQuestion ''A'' ''so'' True,
                          Flip ''A'' 0 True])"

definition afterMatch :: server where
  "afterMatch = after (twoPlayers @ [Flip ''A'' 0 True, Flip ''A'' 1 True])"

definition afterMatchWatched :: server where
  "afterMatchWatched =
     after (twoPlayers @ [Connect ''C'' ''Cy'' noShuffle, Flip ''A'' 0 True, Flip ''A'' 1 True])"

definition fiveAsked :: server where
  "fiveAsked = after (twoPlayers @ replicate 5 (AskQuestion ''A'' ''why'' True))"

text \<open>
  After the first pair: Bob answers (the timer resumes on interval 1), Ann turns up an
  elephant and a fox, Bob tries card 0 too early, the flip-back fires and the turn is
  Bob's, Bob tries the matched card 0, a second passes.
\<close>

definition afterSecondMismatch :: "input list" where
  "afterSecondMismatch =
     [AnswerQuestion ''B'' ''blue'' True, Flip ''A'' 2 True, Flip ''A'' 4 True,
      Flip ''B'' 0 True, Timeout, Flip ''B'' 0 True, Tick 1]"

text \<open>
  Ann finds all ten pairs in a row; what the clients may try after the twentieth flip.
\<close>

definition allPairs :: "input list" where
  "allPairs = map (\<lambda>i. Flip ''A'' i True) [0..<20]"

definition playedOut :: server where
  "playedOut = after (twoPlayers @ allPairs)"

definition afterTheEnd :: "input list" where
  "afterTheEnd =
     [AnswerQuestion ''B'' ''blue'' True, Flip ''A'' 3 True, Tick 0,
      Connect ''C'' ''Cy'' noShuffle, AnswerQuestion ''C'' ''go'' True, Timeout]"

text \<open>
  Ann alone in the room: the state before she flips the last card of the tenth pair,
  the state in which that flip enters the evaluator (card 19 revealed, the pair
  marked and counted), and the state one second before the time is up when she has
  started the clock by answering a question.
\<close>

definition lonePlayer :: "input list" where
  "lonePlayer = [Connect ''A'' ''Ann'' noShuffle]"

definition loneBeforeLast :: server where
  "loneBeforeLast = after (lonePlayer @ butlast allPairs)"

definition loneEntry :: server where
  "loneEntry = modify 0 (isPair 0 18 19) (modify 0 (reveal 19) loneBeforeLast)"

definition loneClock :: server where
  "loneClock = after (lonePlayer @ AnswerQuestion ''A'' ''hi'' True # replicate 179 (Tick 0))"

section \<open>Properties\<close>

subsection \<open>Basic facts about the store\<close>

lemma heap_modify [simp]: "heap (modify a f s) = (heap s)[a := f (heap s ! a)]"
  and rooms_modify [simp]: "rooms (modify a f s) = rooms s"
  and intervals_modify [simp]: "intervals (modify a f s) = intervals s"
  and timeouts_modify [simp]: "timeouts (modify a f s) = timeouts s"
  and nextHandle_modify [simp]: "nextHandle (modify a f s) = nextHandle s"
  by (simp_all add: modify_def)

lemma clearInterval_simps [simp]:
  "heap (clearInterval h s) = heap s"
  "rooms (clearInterval h s) = rooms s"
  "timeouts (clearInterval h s) = timeouts s"
  "nextHandle (clearInterval h s) = nextHandle s"
  by (simp_all add: clearInterval_def)

lemma after_eq: "exec init ins = Inr (s, ev) \<Longrightarrow> after ins = s"
  by (simp add: after_def)

subsection \<open>Answering a question\<close>

lemma answerQuestion_effect:
  assumes "rooms s = Some a" "a < length (heap s)"
    and "answerQuestion sid text cb s = (s', ev)"
  defines "r \<equiv> heap s ! a"
  defines "by \<equiv> (case find (\<lambda>p. id_p p = sid) (players r) of None \<Rightarrow> ''Unknown'' | Some p \<Rightarrow> name p)"
  shows "log_r (heap s' ! a) = A by text # log_r r
    \<and> ev = [(ToRoom ROOM_ID, QuestionAnswered by text), (ToRoom ROOM_ID, snapshot (heap s' ! a))]
           @ ack cb sid True None
    \<and> remaining (timer (heap s' ! a)) = remaining (timer r)
    \<and> (if gameOver r then timer (heap s' ! a) = timer r \<and> intervals s' = intervals s
        else running (timer (heap s' ! a))
          \<and> (\<not> running (timer r) \<longrightarrow>
               intervalId (timer (heap s' ! a)) = Some (nextHandle s)
               \<and> intervals s' = intervals s @ [(nextHandle s, a)]))"
  using assms
  by (auto simp: answerQuestion_def resumeTimer_def startTimer_def broadcastState_def Let_def
      split: if_splits option.splits)

text \<open>
  C9. When a player of the room answers, an Answer entry with the player's name is put
  at the front of the log, the answer is sent to the whole room (followed by the state
  broadcast and the acknowledgement), and the timer is resumed exactly when the game is
  not over: if it is over the timer and the interval tasks are left as they were; if it
  is not, the timer runs afterwards, and when it was paused a new interval task is
  started for the room. The remaining time is not changed.
\<close>

theorem answerQuestion_by_player:
  assumes "rooms s = Some a" and "a < length (heap s)"
    and "find (\<lambda>p. id_p p = sid) (players (heap s ! a)) = Some p"
    and "answerQuestion sid text cb s = (s', ev)"
  shows "log_r (heap s' ! a) = A (name p) text # log_r (heap s ! a)
    \<and> ev = [(ToRoom ROOM_ID, QuestionAnswered (name p) text),
            (ToRoom ROOM_ID, snapshot (heap s' ! a))] @ ack cb sid True None
    \<and> remaining (timer (heap s' ! a)) = remaining (timer (heap s ! a))
    \<and> (if gameOver (heap s ! a)
        then timer (heap s' ! a) = timer (heap s ! a) \<and> intervals s' = intervals s
        else running (timer (heap s' ! a))
          \<and> (\<not> running (timer (heap s ! a)) \<longrightarrow>
               intervalId (timer (heap s' ! a)) = Some (nextHandle s)
               \<and> intervals s' = intervals s @ [(nextHandle s, a)]))"
  using answerQuestion_effect [OF assms(1,2,4)] assms(3) by simp

theorem answerQuestion_by_player_witness:
  "rooms afterMatch = Some 0
   \<and> \<not> gameOver (heap afterMatch ! 0)
   \<and> \<not> running (timer (heap afterMatch ! 0))
   \<and> log_r (heap (fst (answerQuestion ''B'' ''blue'' True afterMatch)) ! 0)
       = A ''Bob'' ''blue'' # log_r (heap afterMatch ! 0)
   \<and> running (timer (heap (fst (answerQuestion ''B'' ''blue'' True afterMatch)) ! 0))
   \<and> intervals (fst (answerQuestion ''B'' ''blue'' True afterMatch))
       = intervals afterMatch @ [(nextHandle afterMatch, 0)]"
proof -
  have h1: "rooms afterMatch = Some 0" by code_simp
  have h2: "0 < length (heap afterMatch)" by code_simp
  have h3: "find (\<lambda>p. id_p p = ''B'') (players (heap afterMatch ! 0))
              = Some (newPlayer ''B'' ''Bob'')" by code_simp
  have h4: "\<not> gameOver (heap afterMatch ! 0)" by code_simp
  have h5: "\<not> running (timer (heap afterMatch ! 0))" by code_simp
  have h6: "name (newPlayer ''B'' ''Bob'') = ''Bob''" by (simp add: newPlayer_def)
  show ?thesis
    using answerQuestion_by_player [OF h1 h2 h3 surjective_pairing, of "''blue''" True] h1 h4 h5 h6
    by simp
qed

text \<open>
  C10. When the sender is not one of the room's players the handler does not reject
  the call: it logs an Answer entry under the name \<open>Unknown\<close>, sends it to the whole
  room, and resumes the timer when the game is not over, as it does for a player.
\<close>

theorem answerQuestion_by_stranger:
  assumes "rooms s = Some a" and "a < length (heap s)"
    and "find (\<lambda>p. id_p p = sid) (players (heap s ! a)) = None"
    and "answerQuestion sid text cb s = (s', ev)"
  shows "log_r (heap s' ! a) = A ''Unknown'' text # log_r (heap s ! a)
    \<and> ev = [(ToRoom ROOM_ID, QuestionAnswered ''Unknown'' text),
            (ToRoom ROOM_ID, snapshot (heap s' ! a))] @ ack cb sid True None
    \<and> (if gameOver (heap s ! a)
        then timer (heap s' ! a) = timer (heap s ! a) \<and> intervals s' = intervals s
        else running (timer (heap s' ! a))
          \<and> (\<not> running (timer (heap s ! a)) \<longrightarrow>
               intervalId (timer (heap s' ! a)) = Some (nextHandle s)
               \<and> intervals s' = intervals s @ [(nextHandle s, a)]))"
  using answerQuestion_effect [OF assms(1,2,4)] assms(3) by simp

theorem answerQuestion_by_stranger_witness:
  "rooms afterMatchWatched = Some 0
   \<and> find (\<lambda>p. id_p p = ''C'') (players (heap afterMatchWatched ! 0)) = None
   \<and> \<not> gameOver (heap afterMatchWatched ! 0)
   \<and> \<not> running (timer (heap afterMatchWatched ! 0))
   \<and> log_r (heap (fst (answerQuestion ''C'' ''go'' False afterMatchWatched)) ! 0)
       = A ''Unknown'' ''go'' # log_r (heap afterMatchWatched ! 0)
   \<and> snd (answerQuestion ''C'' ''go'' False afterMatchWatched)
       = [(ToRoom ROOM_ID, QuestionAnswered ''Unknown'' ''go''),
          (ToRoom ROOM_ID, snapshot (heap (fst (answerQuestion ''C'' ''go'' False afterMatchWatched)) ! 0))]
   \<and> running (timer (heap (fst (answerQuestion ''C'' ''go'' False afterMatchWatched)) ! 0))
   \<and> intervals (fst (answerQuestion ''C'' ''go'' False afterMatchWatched))
       = intervals afterMatchWatched @ [(nextHandle afterMatchWatched, 0)]"
proof -
  have h1: "rooms afterMatchWatched = Some 0" by code_simp
  have h2: "0 < length (heap afterMatchWatched)" by code_simp
  have h3: "find (\<lambda>p. id_p p = ''C'') (players (heap afterMatchWatched ! 0)) = None"
    by code_simp
  have h4: "\<not> gameOver (heap afterMatchWatched ! 0)" by code_simp
  have h5: "\<not> running (timer (heap afterMatchWatched ! 0))" by code_simp
  show ?thesis
    using answerQuestion_by_stranger [OF h1 h2 h3 surjective_pairing, of "''go''" False] h1 h3 h4 h5
    by (simp add: ack_def)
qed

subsection \<open>The deck\<close>

text \<open>
  Rounding moves a positive number by at most half the distance of the doubles around
  it, the largest double below 1 is \<open>1 - 2^(-53)\<close>, and so the product of a draw and a
  positive integer \<open>n\<close>, rounded, is still below \<open>n\<close>.
\<close>

lemma pow2_pos [simp]: "0 < pow2 e"
  by (simp add: pow2_def)

lemma pow2_Suc: "pow2 (e + 1) = 2 * pow2 e"
proof (cases "0 \<le> e")
  case True
  then show ?thesis by (simp add: pow2_def nat_add_distrib)
next
  case False
  then have "nat (- e) = Suc (nat (- (e + 1)))" by simp
  then show ?thesis using False by (auto simp: pow2_def)
qed

lemma pow2_mono: "a \<le> b \<Longrightarrow> pow2 a \<le> pow2 b"
proof (induction "nat (b - a)" arbitrary: b)
  case 0
  then show ?case by simp
next
  case (Suc n)
  then have "n = nat ((b - 1) - a)" "a \<le> b - 1" by simp_all
  then have "pow2 a \<le> pow2 (b - 1)" using Suc.hyps(1) by blast
  moreover have "pow2 b = 2 * pow2 (b - 1)" using pow2_Suc [of "b - 1"] by simp
  moreover have "0 < pow2 (b - 1)" by simp
  ultimately show ?case by linarith
qed

lemma binade_bounds:
  assumes "0 < q"
  shows "pow2 (binade q) \<le> q" and "q < pow2 (binade q + 1)"
proof -
  have "pow2 (binade q) \<le> q \<and> q < pow2 (binade q + 1)"
  proof (cases "1 \<le> q")
    case True
    let ?m = "\<lfloor>q\<rfloor>"
    have m: "0 < ?m" using True by simp
    have b: "2 ^ nat (bitlen ?m - 1) \<le> ?m" "?m < 2 ^ nat (bitlen ?m)"
      using bitlen_bounds [OF m] by simp_all
    have ge: "1 \<le> bitlen ?m" using m by (simp add: bitlen_alt_def)
    have e: "binade q = bitlen ?m - 1" using True by (simp add: binade_def)
    have "(of_int (2 ^ nat (bitlen ?m - 1)) :: rat) \<le> of_int ?m" using b(1) by (simp only: of_int_le_iff)
    moreover have "of_int ?m \<le> q" by (rule of_int_floor_le)
    ultimately have "(of_int (2 ^ nat (bitlen ?m - 1)) :: rat) \<le> q" by (rule order_trans)
    then have "2 ^ nat (bitlen ?m - 1) \<le> q" by simp
    then have lo: "pow2 (binade q) \<le> q" using ge e by (simp add: pow2_def)
    have "?m + 1 \<le> 2 ^ nat (bitlen ?m)" using b(2) by simp
    then have "(of_int (?m + 1) :: rat) \<le> of_int (2 ^ nat (bitlen ?m))" by (simp only: of_int_le_iff)
    moreover have "q < of_int (?m + 1)" by simp linarith
    ultimately have "q < 2 ^ nat (bitlen ?m)" by simp
    then have hi: "q < pow2 (binade q + 1)" using ge e by (simp add: pow2_def)
    show ?thesis using lo hi by simp
  next
    case False
    let ?M = "\<lceil>1 / q\<rceil>"
    let ?k = "bitlen (?M - 1)"
    have y: "1 < 1 / q" using False assms by simp
    then have M: "0 < ?M - 1" by (simp add: less_ceiling_iff)
    have b: "2 ^ nat (?k - 1) \<le> ?M - 1" "?M - 1 < 2 ^ nat ?k"
      using bitlen_bounds [OF M] by simp_all
    have ge: "1 \<le> ?k" using M by (simp add: bitlen_alt_def)
    have e: "binade q = - ?k" using False by (simp add: binade_def)
    have "?M \<le> 2 ^ nat ?k" using b(2) by simp
    then have "(of_int ?M :: rat) \<le> of_int (2 ^ nat ?k)" by (simp only: of_int_le_iff)
    moreover have "1 / q \<le> of_int ?M" by (rule le_of_int_ceiling)
    ultimately have "1 / q \<le> (of_int (2 ^ nat ?k) :: rat)" by (rule order_trans [rotated])
    then have "1 / q \<le> 2 ^ nat ?k" by simp
    then have "1 \<le> 2 ^ nat ?k * q" using assms by (simp add: field_simps)
    then have lo: "pow2 (binade q) \<le> q" using ge e by (simp add: pow2_def field_simps)
    have "(of_int (2 ^ nat (?k - 1)) :: rat) \<le> of_int (?M - 1)" using b(1) by (simp only: of_int_le_iff)
    moreover have "of_int (?M - 1) < 1 / q" using ceiling_correct [of "1 / q"] by simp
    ultimately have "(of_int (2 ^ nat (?k - 1)) :: rat) < 1 / q" by (rule le_less_trans)
    then have "2 ^ nat (?k - 1) < 1 / q" by simp
    then have lt: "2 ^ nat (?k - 1) * q < 1" using assms by (simp add: field_simps)
    have hi: "q < pow2 (binade q + 1)"
    proof (cases "?k = 1")
      case True
      then show ?thesis using e False by (simp add: pow2_def)
    next
      case False
      then have "nat (- (binade q + 1)) = nat (?k - 1)" "\<not> 0 \<le> binade q + 1" using e ge by simp_all
      then show ?thesis using lt by (simp add: pow2_def field_simps)
    qed
    show ?thesis using lo hi by simp
  qed
  then show "pow2 (binade q) \<le> q" and "q < pow2 (binade q + 1)" by simp_all
qed

lemma roundEven_near: "\<bar>of_int (roundEven x) - x\<bar> \<le> 1 / 2"
proof -
  have "of_int \<lfloor>x\<rfloor> \<le> x" "x < of_int \<lfloor>x\<rfloor> + 1" by linarith+
  then show ?thesis by (auto simp: roundEven_def Let_def abs_le_iff)
qed

lemma ulp_pos [simp]: "0 < ulp q"
  by (simp add: ulp_def)

lemma ulp_neq0 [simp]: "ulp q \<noteq> 0"
  by (simp add: ulp_def pow2_def)

lemma toDouble_le:
  assumes "0 < q"
  shows "toDouble q \<le> q + ulp q / 2"
proof -
  let ?u = "ulp q"
  have "of_int (roundEven (q / ?u)) - q / ?u \<le> 1 / 2"
    using roundEven_near [of "q / ?u"] by linarith
  then have "of_int (roundEven (q / ?u)) \<le> q / ?u + 1 / 2" by linarith
  then have "of_int (roundEven (q / ?u)) * ?u \<le> (q / ?u + 1 / 2) * ?u"
    by (rule mult_right_mono) (rule less_imp_le [OF ulp_pos])
  also have "(q / ?u + 1 / 2) * ?u = q + ?u / 2"
    by (simp add: field_simps)
  finally show ?thesis using assms by (simp add: toDouble_def)
qed

lemma double_below_one:
  assumes "isDouble x" "0 < x" "x < 1"
  shows "x \<le> 1 - 1 / 9007199254740992"
proof -
  let ?e = "binade x"
  have "pow2 ?e < 1" using binade_bounds(1) [OF assms(2)] assms(3) by simp
  moreover have "1 \<le> pow2 ?e" if "0 \<le> ?e" using pow2_mono [OF that] by (simp add: pow2_def)
  ultimately have neg: "?e \<le> - 1" by fastforce
  show ?thesis
  proof (cases "?e = - 1")
    case True
    then have u: "ulp x = 1 / 9007199254740992" by (simp add: ulp_def pow2_def)
    define k where "k = roundEven (\<bar>x\<bar> / ulp \<bar>x\<bar>)"
    have "toDouble x = of_int k / 9007199254740992"
      using assms(2) u by (simp add: toDouble_def k_def)
    then have x: "x = of_int k / 9007199254740992" using assms(1) by (simp add: isDouble_def)
    then have "(of_int k :: rat) < of_int 9007199254740992" using assms(3) by simp
    then have "k < 9007199254740992" by (simp only: of_int_less_iff)
    then have "k \<le> 9007199254740991" by simp
    then have "(of_int k :: rat) \<le> of_int 9007199254740991" by (simp only: of_int_le_iff)
    then show ?thesis using x by simp
  next
    case False
    then have "?e + 1 \<le> - 1" using neg by simp
    then have "pow2 (?e + 1) \<le> pow2 (- 1)" by (rule pow2_mono)
    then have "x < 1 / 2" using binade_bounds(2) [OF assms(2)] by (simp add: pow2_def)
    then show ?thesis by simp
  qed
qed

lemma mul_below:
  assumes "isDouble x" "0 \<le> x" "x < 1" "0 < n"
  shows "toDouble (x * of_nat n) < of_nat n"
proof (cases "x = 0")
  case True
  then show ?thesis using assms(4) by (simp add: toDouble_def)
next
  case False
  then have xpos: "0 < x" using assms(2) by simp
  let ?n = "of_nat n :: rat"
  let ?q = "x * ?n"
  have n1: "1 \<le> ?n" using assms(4) by simp
  have q: "0 < ?q" using xpos assms(4) by simp
  have "x \<le> 1 - 1 / 9007199254740992" by (rule double_below_one [OF assms(1) xpos assms(3)])
  then have qle: "?q \<le> (1 - 1 / 9007199254740992) * ?n"
    by (rule mult_right_mono) simp
  have up: "toDouble ?q \<le> ?q + ulp ?q / 2" by (rule toDouble_le [OF q])
  show ?thesis
  proof (cases "- 1022 \<le> binade ?q")
    case True
    then have "ulp ?q = pow2 (binade ?q) / 4503599627370496" by (simp add: ulp_def max_def)
    then have "ulp ?q \<le> ?q / 4503599627370496"
      using binade_bounds(1) [OF q] by (simp add: divide_right_mono)
    then have "toDouble ?q \<le> ?q * (1 + 1 / 9007199254740992)" using up by (simp add: field_simps)
    also have "\<dots> \<le> ((1 - 1 / 9007199254740992) * ?n) * (1 + 1 / 9007199254740992)"
      using qle by (rule mult_right_mono) simp
    also have "\<dots> < ?n" using n1 by (simp add: field_simps)
    finally show ?thesis .
  next
    case False
    then have e: "binade ?q + 1 \<le> - 1022" by simp
    have u: "ulp ?q = pow2 (- 1022) / 4503599627370496" using False by (simp add: ulp_def max_def)
    have "pow2 (- 1022) \<le> pow2 (- 1)" by (rule pow2_mono) simp
    then have small: "pow2 (- 1022) \<le> 1 / 2" by (simp add: pow2_def)
    have "?q < pow2 (- 1022)" using binade_bounds(2) [OF q] pow2_mono [OF e] by simp
    then have "toDouble ?q < pow2 (- 1022) + pow2 (- 1022) / 9007199254740992"
      using up u by simp
    also have "\<dots> \<le> 1 / 2 + (1 / 2) / 9007199254740992" using small by simp
    also have "\<dots> < 1" by simp
    finally show ?thesis using n1 by simp
  qed
qed

lemma draw_le:
  assumes "unitDraws rnd"
  shows "nat \<lfloor>toDouble (rnd i * of_nat (i + 1))\<rfloor> \<le> i"
proof -
  have "isDouble (rnd i)" "0 \<le> rnd i" "rnd i < 1" using assms by (simp_all add: unitDraws_def)
  then have "toDouble (rnd i * of_nat (i + 1)) < of_nat (i + 1)"
    by (rule mul_below) simp
  then have "\<lfloor>toDouble (rnd i * of_nat (i + 1))\<rfloor> < int (i + 1)"
    by (simp add: floor_less_iff)
  then show ?thesis by linarith
qed

lemma swap_perm:
  "i < length arr \<Longrightarrow> j < length arr \<Longrightarrow> mset (swap i j arr) = mset arr \<and> length (swap i j arr) = length arr"
  by (simp add: swap_def mset_swap)

lemma shuffle_from_perm:
  assumes "unitDraws rnd"
  shows "k < length arr \<Longrightarrow> mset (shuffle_from rnd k arr) = mset arr"
proof (induction k arbitrary: arr)
  case 0
  then show ?case by simp
next
  case (Suc k)
  let ?j = "nat \<lfloor>toDouble (rnd (Suc k) * of_nat (Suc k + 1))\<rfloor>"
  have j: "?j < length arr" using draw_le [OF assms, of "Suc k"] Suc.prems by simp
  have sw: "mset (swap (Suc k) ?j arr) = mset arr" "length (swap (Suc k) ?j arr) = length arr"
    using swap_perm [OF Suc.prems j] by simp_all
  have "mset (shuffle_from rnd k (swap (Suc k) ?j arr)) = mset (swap (Suc k) ?j arr)"
    using Suc.IH [of "swap (Suc k) ?j arr"] Suc.prems sw(2) by simp
  then show ?case using sw(1) by (simp add: Let_def)
qed

lemma shuffle_perm: "unitDraws rnd \<Longrightarrow> mset (shuffle rnd arr) = mset arr"
  by (cases arr) (simp_all add: shuffle_def shuffle_from_perm)

lemma dealt_flags:
  "list_all (\<lambda>c. \<not> revealed c \<and> \<not> matched c) (pushPairs 0 ANIMALS [])"
  by code_simp

lemma dealt_length: "length (pushPairs 0 ANIMALS []) = 20"
  by code_simp

lemma dealt_twice_all:
  "\<forall>k \<in> set [0..<10]. count (mset (map pairId (pushPairs 0 ANIMALS []))) k = 2"
  by code_simp

lemma dealt_twice: "k < 10 \<Longrightarrow> count (mset (map pairId (pushPairs 0 ANIMALS []))) k = 2"
  using dealt_twice_all by simp

lemma dealt_ids: "list_all (\<lambda>c. pairId c < 10) (pushPairs 0 ANIMALS [])"
  by code_simp

lemma length_filter_count:
  "length (filter (\<lambda>c. f c = k) xs) = count (mset (map f xs)) k"
  by (induction xs) auto

lemma deck_facts:
  assumes "unitDraws rnd"
  shows "mset (shuffle rnd arr) = mset arr
    \<and> length (cards (createNewGameState rnd)) = 20
    \<and> (\<forall>k<10. length (filter (\<lambda>c. pairId c = k) (cards (createNewGameState rnd))) = 2)
    \<and> (\<forall>c \<in> set (cards (createNewGameState rnd)). pairId c < 10 \<and> \<not> revealed c \<and> \<not> matched c)"
proof -
  let ?dealt = "pushPairs 0 ANIMALS []"
  let ?d = "cards (createNewGameState rnd)"
  have perm: "mset ?d = mset ?dealt"
    using shuffle_perm [OF assms] by (simp add: createNewGameState_def)
  have len: "length ?d = 20"
    using mset_eq_length [OF perm] dealt_length by simp
  have cnt: "length (filter (\<lambda>c. pairId c = k) ?d) = 2" if "k < 10" for k
  proof -
    have "length (filter (\<lambda>c. pairId c = k) ?d) = count (mset (map pairId ?d)) k"
      by (rule length_filter_count)
    also have "mset (map pairId ?d) = mset (map pairId ?dealt)"
      using perm by (metis mset_map)
    finally show ?thesis using dealt_twice [OF that] by simp
  qed
  have flags: "\<not> revealed c \<and> \<not> matched c \<and> pairId c < 10" if "c \<in> set ?d" for c
  proof -
    have "c \<in> set ?dealt" using that perm by (metis mset_eq_setD)
    then show ?thesis using dealt_flags dealt_ids by (auto simp: list_all_iff)
  qed
  show ?thesis using shuffle_perm [OF assms] len cnt flags by blast
qed

lemma newGame_fields [simp]:
  "players (createNewGameState rnd) = []"
  "flipped (createNewGameState rnd) = []"
  "currentPlayer (createNewGameState rnd) = 0"
  "timer (createNewGameState rnd) = \<lparr>remaining = 180, running = False, intervalId = None\<rparr>"
  "log_r (createNewGameState rnd) = []"
  "gameOver (createNewGameState rnd) = False"
  by (simp_all add: createNewGameState_def)

lemma rematch_refused:
  "rooms s = None \<Longrightarrow> rematch sid cb rnd s = (s, ack cb sid False (Some ''No game found.''))"
  "rooms s = Some a \<Longrightarrow> length (players (heap s ! a)) \<noteq> 2 \<Longrightarrow>
     rematch sid cb rnd s = (s, ack cb sid False (Some ''Waiting for opponent.''))"
  by (simp_all add: rematch_def)

lemma rematch_effect:
  assumes "rooms s = Some a" "length (players (heap s ! a)) = 2"
    and "rematch sid cb rnd s = (s', ev)"
  defines "r' \<equiv> (createNewGameState rnd)
                  \<lparr>players := map resetPlayer (players (heap s ! a)),
                   timer := \<lparr>remaining = 180, running = True, intervalId = Some (nextHandle s)\<rparr>\<rparr>"
  shows "s' = s\<lparr>heap := heap s @ [r'], rooms := Some (length (heap s)),
               intervals := intervals s @ [(nextHandle s, length (heap s))],
               nextHandle := Suc (nextHandle s)\<rparr>"
    and "ev = [(ToRoom ROOM_ID, snapshot r'), (ToRoom ROOM_ID, GameReset)] @ ack cb sid True None"
  using assms
  by (auto simp: rematch_def startTimer_def broadcastState_def Let_def modify_def)

lemma connection_creates:
  assumes "rooms s = None"
  shows "rooms (fst (connection sid nm rnd s)) = Some (length (heap s))"
    and "cards (heap (fst (connection sid nm rnd s)) ! length (heap s)) = cards (createNewGameState rnd)"
  using assms
  by (auto simp: connection_def startTimer_def Let_def modify_def nth_append split: option.splits)

lemma rematch_creates:
  assumes "rooms s = Some a" "length (players (heap s ! a)) = 2"
  shows "rooms (fst (rematch sid cb rnd s)) = Some (length (heap s))"
    and "cards (heap (fst (rematch sid cb rnd s)) ! length (heap s)) = cards (createNewGameState rnd)"
  using rematch_effect(1) [OF assms surjective_pairing, of sid cb rnd] by simp_all

text \<open>
  C8. When every draw is a double in \<open>[0, 1)\<close>, the rounded product of the draw and
  \<open>i + 1\<close> is still below \<open>i + 1\<close>, so every \<open>j\<close> is at most \<open>i\<close> and every swap stays
  inside the array: the shuffle returns a permutation of its input. The deck of a new
  game state has 20 cards, every pairId below 10 exactly twice, and no card revealed
  or matched. It is the deck of the room that a connection creates when there is
  none, and of the room that a rematch creates.
\<close>

theorem deck_invariant:
  assumes "unitDraws rnd"
  shows "mset (shuffle rnd arr) = mset arr
    \<and> length (cards (createNewGameState rnd)) = 20
    \<and> (\<forall>k<10. length (filter (\<lambda>c. pairId c = k) (cards (createNewGameState rnd))) = 2)
    \<and> (\<forall>c \<in> set (cards (createNewGameState rnd)). pairId c < 10 \<and> \<not> revealed c \<and> \<not> matched c)
    \<and> (rooms s = None \<longrightarrow>
         cards (heap (fst (connection sid nm rnd s)) ! length (heap s)) = cards (createNewGameState rnd))
    \<and> (rooms s = Some a \<and> length (players (heap s ! a)) = 2 \<longrightarrow>
         cards (heap (fst (rematch sid cb rnd s)) ! length (heap s)) = cards (createNewGameState rnd))
    \<and> (\<forall>i. toDouble (rnd i * of_nat (i + 1)) < of_nat (i + 1)
            \<and> nat \<lfloor>toDouble (rnd i * of_nat (i + 1))\<rfloor> \<le> i)"
proof -
  have below: "toDouble (rnd i * of_nat (i + 1)) < of_nat (i + 1)
            \<and> nat \<lfloor>toDouble (rnd i * of_nat (i + 1))\<rfloor> \<le> i" for i
  proof -
    have "isDouble (rnd i)" "0 \<le> rnd i" "rnd i < 1" using assms by (simp_all add: unitDraws_def)
    then have "toDouble (rnd i * of_nat (i + 1)) < of_nat (i + 1)" by (rule mul_below) simp
    then show ?thesis using draw_le [OF assms, of i] by simp
  qed
  show ?thesis
    using deck_facts [OF assms, of arr] connection_creates(2) [of s sid nm rnd]
      rematch_creates(2) [of s a sid cb rnd] below
    by blast
qed

theorem deck_invariant_witness:
  "unitDraws halves
   \<and> shuffle halves [1, 2, 3, 4 :: nat] = [1, 4, 2, 3]
   \<and> mset (shuffle halves [1, 2, 3, 4 :: nat]) = mset [1, 2, 3, 4]
   \<and> length (cards (createNewGameState halves)) = 20
   \<and> length (filter (\<lambda>c. pairId c = 7) (cards (createNewGameState halves))) = 2
   \<and> map pairId (cards (createNewGameState halves))
       = [0, 8, 0, 6, 1, 5, 1, 7, 2, 9, 2, 6, 3, 7, 3, 8, 4, 9, 4, 5]
   \<and> rooms init = None
   \<and> cards (heap (fst (connection ''A'' ''Ann'' halves init)) ! 0) = cards (createNewGameState halves)
   \<and> unitDraws nearThird
   \<and> nearThird 2 * 3 = 18014398509481983 / 9007199254740992
   \<and> toDouble (nearThird 2 * 3) = 2
   \<and> toDouble (9007199254740993 / 9007199254740992) = 1
   \<and> toDouble (9007199254740995 / 9007199254740992) = 9007199254740996 / 9007199254740992
   \<and> shuffle nearThird [0, 1, 2 :: nat] = [0, 1, 2]
   \<and> mset (shuffle nearThird [0, 1, 2 :: nat]) = mset [0, 1, 2]"
proof -
  have d: "isDouble (1 / 2)" "isDouble (6004799503160661 / 9007199254740992)" by code_simp+
  have h1: "unitDraws halves" using d(1) by (simp add: unitDraws_def halves_def)
  have n1: "unitDraws nearThird" using d(2) by (simp add: unitDraws_def nearThird_def)
  have h2: "shuffle halves [1, 2, 3, 4 :: nat] = [1, 4, 2, 3]"
    "map pairId (cards (createNewGameState halves))
       = [0, 8, 0, 6, 1, 5, 1, 7, 2, 9, 2, 6, 3, 7, 3, 8, 4, 9, 4, 5]"
    by code_simp+
  have n2: "nearThird 2 * 3 = 18014398509481983 / 9007199254740992"
    "toDouble (nearThird 2 * 3) = 2"
    "shuffle nearThird [0, 1, 2 :: nat] = [0, 1, 2]"
    "toDouble (9007199254740993 / 9007199254740992) = 1"
    "toDouble (9007199254740995 / 9007199254740992) = 9007199254740996 / 9007199254740992"
    by code_simp+
  have h3: "rooms init = None" "length (heap init) = 0" by (simp_all add: init_def)
  have m: "mset (shuffle nearThird [0, 1, 2 :: nat]) = mset [0, 1, 2]"
    using n2(3) by simp
  show ?thesis
    using deck_invariant [OF h1, of "[1, 2, 3, 4 :: nat]" init "''A''" "''Ann''"] h1 h2 h3 n1 n2 m
    by auto
qed

subsection \<open>Rematch\<close>

text \<open>
  C6. A rematch request fails and leaves the server as it is when there is no room or
  the room does not have exactly two players. Otherwise a new room object is allocated
  and registered, the old one is not touched; its deck is the freshly generated one
  (20 cards, every pairId twice, none revealed or matched); its players have the
  identities and names of the old room's players in the same order, with matches,
  asked, extra and prevMatches 0; its timer is at 180 seconds and running on a new
  interval (the intervals that were live stay live); the state of the new room (its
  deck, the players with their counters at 0, turn 0, timer 180 and running, an empty
  chat log) and the reset signal go to the room, then the acknowledgement.
\<close>

theorem rematch_new_game:
  assumes "unitDraws rnd" and "rematch sid cb rnd s = (s', ev)"
  shows "case rooms s of
           None \<Rightarrow> s' = s \<and> ev = ack cb sid False (Some ''No game found.'')
         | Some a \<Rightarrow>
             if length (players (heap s ! a)) \<noteq> 2
             then s' = s \<and> ev = ack cb sid False (Some ''Waiting for opponent.'')
             else
               (let n = length (heap s); r' = heap s' ! n in
                rooms s' = Some n \<and> heap s' = heap s @ [r']
                \<and> cards r' = cards (createNewGameState rnd)
                \<and> length (cards r') = 20
                \<and> (\<forall>k<10. length (filter (\<lambda>c. pairId c = k) (cards r')) = 2)
                \<and> (\<forall>c \<in> set (cards r'). \<not> revealed c \<and> \<not> matched c)
                \<and> map id_p (players r') = map id_p (players (heap s ! a))
                \<and> map name (players r') = map name (players (heap s ! a))
                \<and> (\<forall>p \<in> set (players r').
                      matches p = 0 \<and> asked p = 0 \<and> extra p = 0 \<and> prevMatches p = 0)
                \<and> timer r' = \<lparr>remaining = 180, running = True, intervalId = Some (nextHandle s)\<rparr>
                \<and> intervals s' = intervals s @ [(nextHandle s, n)]
                \<and> flipped r' = [] \<and> currentPlayer r' = 0 \<and> log_r r' = [] \<and> \<not> gameOver r'
                \<and> ev = [(ToRoom ROOM_ID,
                          State (cards r') (map (\<lambda>p. (name p, 0, 0, 0)) (players (heap s ! a)))
                            0 (180, True) []),
                         (ToRoom ROOM_ID, GameReset)]
                       @ ack cb sid True None)"
proof (cases "rooms s")
  case None
  then show ?thesis using assms(2) rematch_refused(1) [OF None, of sid cb rnd] by simp
next
  case (Some a)
  show ?thesis
  proof (cases "length (players (heap s ! a)) = 2")
    case False
    then show ?thesis using Some assms(2) rematch_refused(2) [OF Some False, of sid cb rnd] by simp
  next
    case True
    note eff = rematch_effect [OF Some True assms(2)]
    have deck: "length (cards (createNewGameState rnd)) = 20"
      "\<forall>k<10. length (filter (\<lambda>c. pairId c = k) (cards (createNewGameState rnd))) = 2"
      "\<forall>c \<in> set (cards (createNewGameState rnd)). \<not> revealed c \<and> \<not> matched c"
      using deck_facts [OF assms(1), of "[]::nat list"] by simp_all
    show ?thesis using Some True deck
      by (simp add: eff Let_def resetPlayer_def comp_def snapshot_def)
  qed
qed

theorem rematch_new_game_witness:
  "unitDraws halves
   \<and> map matches (players (heap afterMatch ! 0)) = [1, 0]
   \<and> intervals afterMatch = []
   \<and> (case rematch ''B'' True halves afterMatch of
         (s', ev) \<Rightarrow>
           rooms s' = Some 1
           \<and> heap s' ! 0 = heap afterMatch ! 0
           \<and> map matches (players (heap s' ! 1)) = [0, 0]
           \<and> map name (players (heap s' ! 1)) = [''Ann'', ''Bob'']
           \<and> map id_p (players (heap s' ! 1)) = [''A'', ''B'']
           \<and> timer (heap s' ! 1) = \<lparr>remaining = 180, running = True, intervalId = Some 1\<rparr>
           \<and> intervals s' = [(1, 1)]
           \<and> map pairId (cards (heap s' ! 1))
               = [0, 8, 0, 6, 1, 5, 1, 7, 2, 9, 2, 6, 3, 7, 3, 8, 4, 9, 4, 5]
           \<and> list_all (\<lambda>c. \<not> revealed c \<and> \<not> matched c) (cards (heap s' ! 1))
           \<and> ev = [(ToRoom ROOM_ID,
                     State (cards (heap s' ! 1)) [(''Ann'', 0, 0, 0), (''Bob'', 0, 0, 0)]
                       0 (180, True) []),
                    (ToRoom ROOM_ID, GameReset),
                    (ToSocket ''B'', Ack True None)])
   \<and> intervals (after twoPlayers) = [(0, 0)]
   \<and> intervals (fst (rematch ''B'' True halves (after twoPlayers))) = [(0, 0), (1, 1)]"
proof -
  have d: "isDouble (1 / 2)" by code_simp
  have h1: "unitDraws halves" using d by (simp add: unitDraws_def halves_def)
  have "case exec init (twoPlayers @ [Flip ''A'' 0 True, Flip ''A'' 1 True]) of
          Inl e \<Rightarrow> False
        | Inr (m, ev0) \<Rightarrow>
            map matches (players (heap m ! 0)) = [1, 0]
            \<and> intervals m = []
            \<and> rooms m = Some 0 \<and> length (players (heap m ! 0)) = 2
            \<and> (case rematch ''B'' True halves m of
                 (s', ev) \<Rightarrow>
                   rooms s' = Some 1
                   \<and> heap s' ! 0 = heap m ! 0
                   \<and> map matches (players (heap s' ! 1)) = [0, 0]
                   \<and> map name (players (heap s' ! 1)) = [''Ann'', ''Bob'']
                   \<and> map id_p (players (heap s' ! 1)) = [''A'', ''B'']
                   \<and> timer (heap s' ! 1) = \<lparr>remaining = 180, running = True, intervalId = Some 1\<rparr>
                   \<and> intervals s' = [(1, 1)]
                   \<and> map pairId (cards (heap s' ! 1))
                       = [0, 8, 0, 6, 1, 5, 1, 7, 2, 9, 2, 6, 3, 7, 3, 8, 4, 9, 4, 5]
                   \<and> list_all (\<lambda>c. \<not> revealed c \<and> \<not> matched c) (cards (heap s' ! 1))
                   \<and> ev = [(ToRoom ROOM_ID,
                             State (cards (heap s' ! 1)) [(''Ann'', 0, 0, 0), (''Bob'', 0, 0, 0)]
                               0 (180, True) []),
                            (ToRoom ROOM_ID, GameReset),
                            (ToSocket ''B'', Ack True None)])"
    by code_simp
  then obtain m ev0 where
    run: "exec init (twoPlayers @ [Flip ''A'' 0 True, Flip ''A'' 1 True]) = Inr (m, ev0)"
    and g: "map matches (players (heap m ! 0)) = [1, 0]" "intervals m = []"
      "rooms m = Some 0" "length (players (heap m ! 0)) = 2"
    and e: "case rematch ''B'' True halves m of
                 (s', ev) \<Rightarrow>
                   rooms s' = Some 1
                   \<and> heap s' ! 0 = heap m ! 0
                   \<and> map matches (players (heap s' ! 1)) = [0, 0]
                   \<and> map name (players (heap s' ! 1)) = [''Ann'', ''Bob'']
                   \<and> map id_p (players (heap s' ! 1)) = [''A'', ''B'']
                   \<and> timer (heap s' ! 1) = \<lparr>remaining = 180, running = True, intervalId = Some 1\<rparr>
                   \<and> intervals s' = [(1, 1)]
                   \<and> map pairId (cards (heap s' ! 1))
                       = [0, 8, 0, 6, 1, 5, 1, 7, 2, 9, 2, 6, 3, 7, 3, 8, 4, 9, 4, 5]
                   \<and> list_all (\<lambda>c. \<not> revealed c \<and> \<not> matched c) (cards (heap s' ! 1))
                   \<and> ev = [(ToRoom ROOM_ID,
                             State (cards (heap s' ! 1)) [(''Ann'', 0, 0, 0), (''Bob'', 0, 0, 0)]
                               0 (180, True) []),
                            (ToRoom ROOM_ID, GameReset),
                            (ToSocket ''B'', Ack True None)]"
    by (auto split: sum.splits)
  have am: "afterMatch = m" using after_eq [OF run] by (simp add: afterMatch_def)
  have leak: "intervals (after twoPlayers) = [(0, 0)]"
    "intervals (fst (rematch ''B'' True halves (after twoPlayers))) = [(0, 0), (1, 1)]"
    by code_simp+
  have "rooms (fst (rematch ''B'' True halves m)) = Some (length (heap m))"
    using rematch_new_game [OF h1 surjective_pairing, of "''B''" True m] g(3,4)
    by (simp add: Let_def)
  then show ?thesis
    unfolding am using h1 g e leak by simp
qed

subsection \<open>Flipping cards\<close>

lemma findIndex_range: "- 1 \<le> findIndex P xs \<and> findIndex P xs < int (length xs)"
  by (induction xs) (auto simp: Let_def)

lemma findIndex_found:
  "findIndex P xs \<noteq> - 1 \<Longrightarrow>
     0 \<le> findIndex P xs \<and> nat (findIndex P xs) < length xs \<and> P (xs ! nat (findIndex P xs))"
proof (induction xs)
  case Nil
  then show ?case by simp
next
  case (Cons x xs)
  show ?case
  proof (cases "P x")
    case True
    then show ?thesis by simp
  next
    case False
    with Cons.prems have ne: "findIndex P xs \<noteq> - 1" by (auto simp: Let_def split: if_splits)
    from Cons.IH [OF ne] have ih: "0 \<le> findIndex P xs" "nat (findIndex P xs) < length xs"
      "P (xs ! nat (findIndex P xs))" by simp_all
    have "nat (findIndex P xs + 1) = Suc (nat (findIndex P xs))" using ih(1) by simp
    then show ?thesis using False ne ih by (simp add: Let_def)
  qed
qed

lemma findIndex_find: "findIndex P xs = - 1 \<longleftrightarrow> find P xs = None"
proof (induction xs)
  case Nil
  then show ?case by simp
next
  case (Cons x xs)
  have "findIndex P xs + 1 \<noteq> - 1" using findIndex_range [of P xs] by simp
  then show ?case using Cons by (simp add: Let_def)
qed

lemma length_setRevealed [simp]: "length (setRevealed b i cs) = length cs"
  and length_setMatched [simp]: "length (setMatched i cs) = length cs"
  by (simp_all add: setRevealed_def setMatched_def)

lemma flip_match_run:
  assumes cur: "rooms s = Some a" "a < length (heap s)"
    and live: "\<not> gameOver (heap s ! a)"
    and turn: "findIndex (\<lambda>p. id_p p = sid) (players (heap s ! a)) = currentPlayer (heap s ! a)"
              "currentPlayer (heap s ! a) \<noteq> - 1"
    and card: "idx < length (cards (heap s ! a))" "\<not> revealed (cards (heap s ! a) ! idx)"
              "\<not> matched (cards (heap s ! a) ! idx)"
    and one: "flipped (heap s ! a) = [x]" "x < length (cards (heap s ! a))"
    and same: "pairId (cards (heap s ! a) ! x) = pairId (cards (heap s ! a) ! idx)"
  defines "r \<equiv> heap s ! a"
  defines "k \<equiv> nat (currentPlayer r)"
  defines "r1 \<equiv> r\<lparr>cards := setRevealed True idx (cards r), flipped := [x, idx]\<rparr>"
  defines "pl \<equiv> (players r ! k)\<lparr>matches := matches (players r ! k) + 1\<rparr>"
  defines "r5 \<equiv> r\<lparr>cards := setMatched x (setMatched idx (setRevealed True idx (cards r))),
                    players := (players r)[k := pl],
                    log_r := Info (name pl @ '' found a pair ('' @ animal (cards r ! x) @ '').'') # log_r r,
                    flipped := [],
                    timer := (timer r)\<lparr>running := False\<rparr>\<rparr>"
  defines "s5 \<equiv> (if running (timer r) then clearInterval (intervalId (timer r)) s else s)
                   \<lparr>heap := (heap s)[a := r5]\<rparr>"
  defines "ev3 \<equiv> [(ToRoom ROOM_ID, snapshot r1)]
                  @ (if running (timer r) then [(ToRoom ROOM_ID, TimerPaused)] else [])
                  @ [(ToRoom ROOM_ID, snapshot r5), (ToSocket sid, AskQuestionMsg (questionsLeft pl))]"
  shows "flip sid idx cb s =
           (case checkGameOver s5 of
              Inl (e, ev4) \<Rightarrow> Inl (e, ev3 @ ev4)
            | Inr (s6, ev4) \<Rightarrow> Inr (s6, ev3 @ ev4 @ ack cb sid True None))"
proof -
  have fi: "0 \<le> currentPlayer r" "k < length (players r)" "id_p (players r ! k) = sid"
    using findIndex_found [of "\<lambda>p. id_p p = sid" "players r"] turn
    by (simp_all add: r_def k_def)
  have xa: "animal (setRevealed True idx (cards r) ! x) = animal (cards r ! x)"
           "pairId (setRevealed True idx (cards r) ! x) = pairId (cards r ! x)"
           "pairId (setRevealed True idx (cards r) ! idx) = pairId (cards r ! idx)"
    using card one by (auto simp: setRevealed_def r_def nth_list_update)
  have tm: "(timer r)\<lparr>running := False\<rparr> = timer r" if "\<not> running (timer r)"
    using that by simp
  show ?thesis
    using cur live turn card one same fi xa
    unfolding flip_def
    by (simp add: Let_def pauseTimer_def broadcastState_def r_def [symmetric] k_def [symmetric]
        s5_def ev3_def r5_def r1_def pl_def modify_def clearInterval_def tm  questionsLeft_def
        split: prod.splits sum.splits)
qed

lemma flip_mismatch_run:
  assumes cur: "rooms s = Some a" "a < length (heap s)"
    and live: "\<not> gameOver (heap s ! a)"
    and turn: "findIndex (\<lambda>p. id_p p = sid) (players (heap s ! a)) = currentPlayer (heap s ! a)"
              "currentPlayer (heap s ! a) \<noteq> - 1"
    and card: "idx < length (cards (heap s ! a))" "\<not> revealed (cards (heap s ! a) ! idx)"
              "\<not> matched (cards (heap s ! a) ! idx)"
    and one: "flipped (heap s ! a) = [x]" "x < length (cards (heap s ! a))"
    and differ: "pairId (cards (heap s ! a) ! x) \<noteq> pairId (cards (heap s ! a) ! idx)"
  defines "r \<equiv> heap s ! a"
  defines "r1 \<equiv> r\<lparr>cards := setRevealed True idx (cards r), flipped := [x, idx]\<rparr>"
  shows "flip sid idx cb s =
           Inr (s\<lparr>heap := (heap s)[a := r1], timeouts := timeouts s @ [(900, a, x, idx)]\<rparr>,
                [(ToRoom ROOM_ID, snapshot r1)] @ ack cb sid True None)"
proof -
  have xa: "pairId (setRevealed True idx (cards r) ! x) = pairId (cards r ! x)"
           "pairId (setRevealed True idx (cards r) ! idx) = pairId (cards r ! idx)"
    using card one by (auto simp: setRevealed_def r_def nth_list_update)
  show ?thesis
    using cur live turn card one differ xa
    unfolding flip_def
    by (simp add: Let_def broadcastState_def r_def [symmetric] r1_def modify_def)
qed

lemma flipBack_run:
  fixes x y :: nat
  assumes "a < length (heap t)"
  defines "r \<equiv> heap t ! a"
  defines "r2 \<equiv> r\<lparr>cards := setRevealed False x (setRevealed False y (cards r)),
                    flipped := [],
                    currentPlayer := 1 - currentPlayer r\<rparr>"
  defines "rb \<equiv> r2\<lparr>log_r := Info (noMatchText (nameOrUndefined r2)) # log_r r\<rparr>"
  shows "flipBack a x y t = (t\<lparr>heap := (heap t)[a := rb]\<rparr>, broadcastState (t\<lparr>heap := (heap t)[a := rb]\<rparr>))"
  using assms(1)
  by (simp add: flipBack_def Let_def modify_def r_def rb_def r2_def)

lemma flip_rejected_two_flipped:
  assumes "rooms t = Some a" "length (flipped (heap t ! a)) \<ge> 2"
  shows "flip sid idx cb t = Inr (t, []) \<or> flip sid idx cb t = Inr (t, ack cb sid False (Some ''Not your turn.''))"
  using assms by (simp add: flip_def Let_def)

text \<open>
  C3. The second flip of a turn, by the player whose turn it is, on a card that is in
  range, face down and unmatched, when the first flipped card has the same pairId:
  both cards are marked matched, the acting player's match count goes up by one (no
  other player changes), the flipped list is emptied, the timer is paused (when it was
  running its interval is removed from the live intervals, so that its tick does
  nothing any more, and \<open>timerPaused\<close> is sent), the state (cards, players with their
  counters, turn, timer, chat log) is broadcast after the reveal and again after the
  match, \<open>askQuestion\<close> with the remaining-question count goes to the acting socket
  only, and then \<open>checkGameOver\<close> runs on that state; the acknowledgement follows when
  it returns.
\<close>

theorem flip_match:
  assumes cur: "rooms s = Some a" "a < length (heap s)"
    and live: "\<not> gameOver (heap s ! a)"
    and turn: "findIndex (\<lambda>p. id_p p = sid) (players (heap s ! a)) = currentPlayer (heap s ! a)"
              "currentPlayer (heap s ! a) \<noteq> - 1"
    and card: "idx < length (cards (heap s ! a))" "\<not> revealed (cards (heap s ! a) ! idx)"
              "\<not> matched (cards (heap s ! a) ! idx)"
    and one: "flipped (heap s ! a) = [x]" "x < length (cards (heap s ! a))"
    and same: "pairId (cards (heap s ! a) ! x) = pairId (cards (heap s ! a) ! idx)"
  defines "r \<equiv> heap s ! a"
  defines "k \<equiv> nat (currentPlayer r)"
  defines "r1 \<equiv> r\<lparr>cards := setRevealed True idx (cards r), flipped := [x, idx]\<rparr>"
  defines "pl \<equiv> (players r ! k)\<lparr>matches := matches (players r ! k) + 1\<rparr>"
  defines "r5 \<equiv> r\<lparr>cards := setMatched x (setMatched idx (setRevealed True idx (cards r))),
                    players := (players r)[k := pl],
                    log_r := Info (name pl @ '' found a pair ('' @ animal (cards r ! x) @ '').'') # log_r r,
                    flipped := [],
                    timer := (timer r)\<lparr>running := False\<rparr>\<rparr>"
  defines "s5 \<equiv> s\<lparr>heap := (heap s)[a := r5],
                    intervals := (if running (timer r)
                                  then filter (\<lambda>e. Some (fst e) \<noteq> intervalId (timer r)) (intervals s)
                                  else intervals s)\<rparr>"
  defines "view \<equiv> (\<lambda>q. State (cards q)
                          (map (\<lambda>p. (name p, matches p, asked p, extra p)) (players q))
                          (currentPlayer q)
                          (remaining (timer q), running (timer q))
                          (filter (\<lambda>item. case item of Info _ \<Rightarrow> False | Q _ _ \<Rightarrow> True | A _ _ \<Rightarrow> True)
                             (log_r q)))"
  defines "ev3 \<equiv> [(ToRoom ROOM_ID, view r1)]
                  @ (if running (timer r) then [(ToRoom ROOM_ID, TimerPaused)] else [])
                  @ [(ToRoom ROOM_ID, view r5), (ToSocket sid, AskQuestionMsg (5 + extra pl - asked pl))]"
  shows "flip sid idx cb s =
           (case checkGameOver s5 of
              Inl (e, ev4) \<Rightarrow> Inl (e, ev3 @ ev4)
            | Inr (s6, ev4) \<Rightarrow> Inr (s6, ev3 @ ev4 @ ack cb sid True None))
    \<and> rooms s5 = Some a \<and> heap s5 ! a = r5
    \<and> matched (cards r5 ! x) \<and> matched (cards r5 ! idx) \<and> revealed (cards r5 ! idx)
    \<and> (\<forall>i. i \<noteq> x \<and> i \<noteq> idx \<longrightarrow> cards r5 ! i = cards r ! i)
    \<and> k < length (players r) \<and> id_p (players r ! k) = sid
    \<and> matches (players r5 ! k) = matches (players r ! k) + 1
    \<and> (\<forall>i. i \<noteq> k \<longrightarrow> players r5 ! i = players r ! i)
    \<and> flipped r5 = [] \<and> \<not> running (timer r5) \<and> remaining (timer r5) = remaining (timer r)
    \<and> questionsLeft pl = questionsLeft (players r ! k)
    \<and> 5 + extra pl - asked pl = questionsLeft (players r ! k)
    \<and> (\<forall>h. running (timer r) \<and> intervalId (timer r) = Some h \<longrightarrow>
          map_of (intervals s5) h = None \<and> tick h s5 = Inr (s5, []))"
proof -
  have ch: "isChat = (\<lambda>item. case item of Info _ \<Rightarrow> False | Q _ _ \<Rightarrow> True | A _ _ \<Rightarrow> True)"
    by (rule ext) (simp add: isChat_def)
  have vw: "view = snapshot" by (rule ext) (simp add: view_def snapshot_def ch)
  have s5: "s5 = (if running (timer r) then clearInterval (intervalId (timer r)) s else s)
                   \<lparr>heap := (heap s)[a := r5]\<rparr>"
    by (simp add: s5_def clearInterval_def)
  have ql: "5 + extra pl - asked pl = questionsLeft pl" by (simp add: questionsLeft_def)
  have run: "flip sid idx cb s =
           (case checkGameOver s5 of
              Inl (e, ev4) \<Rightarrow> Inl (e, ev3 @ ev4)
            | Inr (s6, ev4) \<Rightarrow> Inr (s6, ev3 @ ev4 @ ack cb sid True None))"
    unfolding ev3_def unfolding vw ql s5 unfolding r5_def r1_def pl_def k_def r_def
    by (rule flip_match_run [OF cur live turn card one same])
  have fi: "k < length (players r)" "id_p (players r ! k) = sid"
    using findIndex_found [of "\<lambda>p. id_p p = sid" "players r"] turn
    by (simp_all add: r_def k_def)
  have st: "rooms s5 = Some a" "heap s5 ! a = r5"
    using cur by (simp_all add: s5_def)
  have cs: "matched (cards r5 ! x)" "matched (cards r5 ! idx)" "revealed (cards r5 ! idx)"
    "\<forall>i. i \<noteq> x \<and> i \<noteq> idx \<longrightarrow> cards r5 ! i = cards r ! i"
    using card one
    by (auto simp: r5_def r_def setMatched_def setRevealed_def nth_list_update)
  have ps: "matches (players r5 ! k) = matches (players r ! k) + 1"
    "\<forall>i. i \<noteq> k \<longrightarrow> players r5 ! i = players r ! i"
    using fi(1) by (simp_all add: r5_def pl_def)
  have rest: "flipped r5 = []" "\<not> running (timer r5)" "remaining (timer r5) = remaining (timer r)"
    "questionsLeft pl = questionsLeft (players r ! k)"
    "5 + extra pl - asked pl = questionsLeft (players r ! k)"
    by (simp_all add: r5_def pl_def questionsLeft_def)
  have gone: "map_of (intervals s5) h = None \<and> tick h s5 = Inr (s5, [])"
    if "running (timer r) \<and> intervalId (timer r) = Some h" for h
  proof -
    have "h \<notin> fst ` set (intervals s5)" using that by (auto simp: s5_def)
    then have "map_of (intervals s5) h = None" by (simp add: map_of_eq_None_iff)
    then show ?thesis by (simp add: tick_def)
  qed
  show ?thesis using run fi st cs ps rest gone by blast
qed

theorem flip_match_witness:
  "rooms afterFirstFlip = Some 0
   \<and> flipped (heap afterFirstFlip ! 0) = [0]
   \<and> pairId (cards (heap afterFirstFlip ! 0) ! 0) = pairId (cards (heap afterFirstFlip ! 0) ! 1)
   \<and> timer (heap afterFirstFlip ! 0) = \<lparr>remaining = 180, running = True, intervalId = Some 0\<rparr>
   \<and> intervals afterFirstFlip = [(0, 0)]
   \<and> length (log_r (heap afterFirstFlip ! 0)) = 4
   \<and> (case flip ''A'' 1 False afterFirstFlip of
         Inl e \<Rightarrow> False
       | Inr (s', ev) \<Rightarrow>
           map matched (take 3 (cards (heap s' ! 0))) = [True, True, False]
           \<and> map revealed (take 3 (cards (heap s' ! 0))) = [True, True, False]
           \<and> map matches (players (heap s' ! 0)) = [1, 0]
           \<and> flipped (heap s' ! 0) = []
           \<and> timer (heap s' ! 0) = \<lparr>remaining = 180, running = False, intervalId = Some 0\<rparr>
           \<and> intervals s' = []
           \<and> tick 0 s' = Inr (s', [])
           \<and> \<not> gameOver (heap s' ! 0)
           \<and> ev = [(ToRoom ROOM_ID,
                     State (setRevealed True 1 (cards (heap afterFirstFlip ! 0)))
                       [(''Ann'', 0, 0, 0), (''Bob'', 0, 1, 0)] 0 (180, True)
                       [A ''Ann'' ''so'', Q ''Bob'' ''why'']),
                    (ToRoom ROOM_ID, TimerPaused),
                    (ToRoom ROOM_ID,
                     State (cards (heap s' ! 0))
                       [(''Ann'', 1, 0, 0), (''Bob'', 0, 1, 0)] 0 (180, False)
                       [A ''Ann'' ''so'', Q ''Bob'' ''why'']),
                    (ToSocket ''A'', AskQuestionMsg 5)])"
proof -
  have "case exec init (twoPlayers @ [AskQuestion ''B'' ''why'' True, AnswerQuestion ''A'' ''so'' True,
                                      Flip ''A'' 0 True]) of
          Inl e \<Rightarrow> False
        | Inr (f, ev0) \<Rightarrow>
            (rooms f = Some 0 \<and> 0 < length (heap f)
             \<and> \<not> gameOver (heap f ! 0)
             \<and> findIndex (\<lambda>p. id_p p = ''A'') (players (heap f ! 0)) = currentPlayer (heap f ! 0)
             \<and> currentPlayer (heap f ! 0) \<noteq> - 1
             \<and> 1 < length (cards (heap f ! 0))
             \<and> \<not> revealed (cards (heap f ! 0) ! 1)
             \<and> \<not> matched (cards (heap f ! 0) ! 1)
             \<and> flipped (heap f ! 0) = [0]
             \<and> 0 < length (cards (heap f ! 0))
             \<and> pairId (cards (heap f ! 0) ! 0) = pairId (cards (heap f ! 0) ! 1))
            \<and> timer (heap f ! 0) = \<lparr>remaining = 180, running = True, intervalId = Some 0\<rparr>
            \<and> intervals f = [(0, 0)]
            \<and> length (log_r (heap f ! 0)) = 4
            \<and> (case flip ''A'' 1 False f of
                 Inl e \<Rightarrow> False
               | Inr (s', ev) \<Rightarrow>
                   map matched (take 3 (cards (heap s' ! 0))) = [True, True, False]
                   \<and> map revealed (take 3 (cards (heap s' ! 0))) = [True, True, False]
                   \<and> map matches (players (heap s' ! 0)) = [1, 0]
                   \<and> flipped (heap s' ! 0) = []
                   \<and> timer (heap s' ! 0) = \<lparr>remaining = 180, running = False, intervalId = Some 0\<rparr>
                   \<and> intervals s' = []
                   \<and> tick 0 s' = Inr (s', [])
                   \<and> \<not> gameOver (heap s' ! 0)
                   \<and> ev = [(ToRoom ROOM_ID,
                             State (setRevealed True 1 (cards (heap f ! 0)))
                               [(''Ann'', 0, 0, 0), (''Bob'', 0, 1, 0)] 0 (180, True)
                               [A ''Ann'' ''so'', Q ''Bob'' ''why'']),
                            (ToRoom ROOM_ID, TimerPaused),
                            (ToRoom ROOM_ID,
                             State (cards (heap s' ! 0))
                               [(''Ann'', 1, 0, 0), (''Bob'', 0, 1, 0)] 0 (180, False)
                               [A ''Ann'' ''so'', Q ''Bob'' ''why'']),
                            (ToSocket ''A'', AskQuestionMsg 5)])"
    by code_simp
  then obtain f ev0 where
    run: "exec init (twoPlayers @ [AskQuestion ''B'' ''why'' True, AnswerQuestion ''A'' ''so'' True,
                                   Flip ''A'' 0 True]) = Inr (f, ev0)"
    and h: "rooms f = Some 0" "0 < length (heap f)"
      "\<not> gameOver (heap f ! 0)"
      "findIndex (\<lambda>p. id_p p = ''A'') (players (heap f ! 0)) = currentPlayer (heap f ! 0)"
      "currentPlayer (heap f ! 0) \<noteq> - 1"
      "1 < length (cards (heap f ! 0))"
      "\<not> revealed (cards (heap f ! 0) ! 1)"
      "\<not> matched (cards (heap f ! 0) ! 1)"
      "flipped (heap f ! 0) = [0]"
      "0 < length (cards (heap f ! 0))"
      "pairId (cards (heap f ! 0) ! 0) = pairId (cards (heap f ! 0) ! 1)"
    and g: "timer (heap f ! 0) = \<lparr>remaining = 180, running = True, intervalId = Some 0\<rparr>"
      "intervals f = [(0, 0)]" "length (log_r (heap f ! 0)) = 4"
    and e: "case flip ''A'' 1 False f of
                 Inl e \<Rightarrow> False
               | Inr (s', ev) \<Rightarrow>
                   map matched (take 3 (cards (heap s' ! 0))) = [True, True, False]
                   \<and> map revealed (take 3 (cards (heap s' ! 0))) = [True, True, False]
                   \<and> map matches (players (heap s' ! 0)) = [1, 0]
                   \<and> flipped (heap s' ! 0) = []
                   \<and> timer (heap s' ! 0) = \<lparr>remaining = 180, running = False, intervalId = Some 0\<rparr>
                   \<and> intervals s' = []
                   \<and> tick 0 s' = Inr (s', [])
                   \<and> \<not> gameOver (heap s' ! 0)
                   \<and> ev = [(ToRoom ROOM_ID,
                             State (setRevealed True 1 (cards (heap f ! 0)))
                               [(''Ann'', 0, 0, 0), (''Bob'', 0, 1, 0)] 0 (180, True)
                               [A ''Ann'' ''so'', Q ''Bob'' ''why'']),
                            (ToRoom ROOM_ID, TimerPaused),
                            (ToRoom ROOM_ID,
                             State (cards (heap s' ! 0))
                               [(''Ann'', 1, 0, 0), (''Bob'', 0, 1, 0)] 0 (180, False)
                               [A ''Ann'' ''so'', Q ''Bob'' ''why'']),
                            (ToSocket ''A'', AskQuestionMsg 5)]"
    by (auto split: sum.splits)
  have f: "afterFirstFlip = f" using after_eq [OF run] by (simp add: afterFirstFlip_def)
  have "nat (currentPlayer (heap f ! 0)) < length (players (heap f ! 0))"
    using flip_match [OF h, of False] by blast
  then show ?thesis
    unfolding f using h(1,9,11) g e by simp
qed

text \<open>
  C4. The second flip of a turn when the two cards have different pairIds: the card is
  revealed, the state broadcast, and a flip-back is scheduled with a delay of 900 ms
  for the room and the two cards (the model records the delay; when the timeout fires
  is up to the run). While a room has two flipped cards, as this one has until the
  flip-back fires, every flip request on it returns with the state unchanged (silently,
  or with the not-your-turn acknowledgement). When the flip-back fires, both cards are
  face down, the flipped list is empty, the turn is \<open>1 - currentPlayer\<close>, an info entry
  is put at the front of the log and the state of the registered room (its cards,
  players, turn, timer and chat log after these updates) is broadcast.
\<close>

theorem flip_no_match:
  fixes x idx :: nat
  assumes cur: "rooms s = Some a" "a < length (heap s)"
    and live: "\<not> gameOver (heap s ! a)"
    and turn: "findIndex (\<lambda>p. id_p p = sid) (players (heap s ! a)) = currentPlayer (heap s ! a)"
              "currentPlayer (heap s ! a) \<noteq> - 1"
    and card: "idx < length (cards (heap s ! a))" "\<not> revealed (cards (heap s ! a) ! idx)"
              "\<not> matched (cards (heap s ! a) ! idx)"
    and one: "flipped (heap s ! a) = [x]" "x < length (cards (heap s ! a))"
    and differ: "pairId (cards (heap s ! a) ! x) \<noteq> pairId (cards (heap s ! a) ! idx)"
  defines "r \<equiv> heap s ! a"
  defines "r1 \<equiv> r\<lparr>cards := setRevealed True idx (cards r), flipped := [x, idx]\<rparr>"
  defines "s1 \<equiv> s\<lparr>heap := (heap s)[a := r1], timeouts := timeouts s @ [(900, a, x, idx)]\<rparr>"
  defines "back \<equiv> (\<lambda>rt. rt\<lparr>cards := setRevealed False x (setRevealed False idx (cards rt)),
                             flipped := [],
                             currentPlayer := 1 - currentPlayer rt\<rparr>)"
  defines "view \<equiv> (\<lambda>q. State (cards q)
                          (map (\<lambda>p. (name p, matches p, asked p, extra p)) (players q))
                          (currentPlayer q)
                          (remaining (timer q), running (timer q))
                          (filter (\<lambda>item. case item of Info _ \<Rightarrow> False | Q _ _ \<Rightarrow> True | A _ _ \<Rightarrow> True)
                             (log_r q)))"
  shows "flip sid idx cb s = Inr (s1, [(ToRoom ROOM_ID, view r1)] @ ack cb sid True None)
    \<and> (\<forall>t sid' idx' cb'. rooms t = Some a \<and> length (flipped (heap t ! a)) = 2 \<longrightarrow>
          flip sid' idx' cb' t = Inr (t, [])
          \<or> flip sid' idx' cb' t = Inr (t, ack cb' sid' False (Some ''Not your turn.'')))
    \<and> rooms s1 = Some a \<and> length (flipped (heap s1 ! a)) = 2
    \<and> (\<forall>t rest. a < length (heap t) \<and> timeouts t = (900, a, x, idx) # rest \<longrightarrow>
          (let rt = heap t ! a;
               rb = (back rt)\<lparr>log_r := Info (noMatchText (nameOrUndefined (back rt))) # log_r rt\<rparr>;
               t' = t\<lparr>timeouts := rest, heap := (heap t)[a := rb]\<rparr>
           in fireTimeout t =
                (t', case rooms t of None \<Rightarrow> [] | Some c \<Rightarrow> [(ToRoom ROOM_ID, view (heap t' ! c))])
              \<and> (x < length (cards rt) \<longrightarrow> \<not> revealed (cards rb ! x))
              \<and> (idx < length (cards rt) \<longrightarrow> \<not> revealed (cards rb ! idx))
              \<and> flipped rb = []
              \<and> currentPlayer rb = 1 - currentPlayer rt
              \<and> (rooms t = Some a \<longrightarrow> fireTimeout t = (t', [(ToRoom ROOM_ID, view rb)]))))"
proof -
  have ch: "isChat = (\<lambda>item. case item of Info _ \<Rightarrow> False | Q _ _ \<Rightarrow> True | A _ _ \<Rightarrow> True)"
    by (rule ext) (simp add: isChat_def)
  have vw: "view = snapshot" by (rule ext) (simp add: view_def snapshot_def ch)
  have run: "flip sid idx cb s = Inr (s1, [(ToRoom ROOM_ID, view r1)] @ ack cb sid True None)"
    unfolding vw unfolding s1_def r1_def r_def
    by (rule flip_mismatch_run [OF cur live turn card one differ])
  have window: "flip sid' idx' cb' t = Inr (t, [])
          \<or> flip sid' idx' cb' t = Inr (t, ack cb' sid' False (Some ''Not your turn.''))"
    if "rooms t = Some a \<and> length (flipped (heap t ! a)) = 2" for t sid' idx' cb'
    using flip_rejected_two_flipped [of t a sid' idx' cb'] that by simp
  have s1: "rooms s1 = Some a" "length (flipped (heap s1 ! a)) = 2"
    using cur by (simp_all add: s1_def r1_def)
  have fire: "(let rt = heap t ! a;
               rb = (back rt)\<lparr>log_r := Info (noMatchText (nameOrUndefined (back rt))) # log_r rt\<rparr>;
               t' = t\<lparr>timeouts := rest, heap := (heap t)[a := rb]\<rparr>
           in fireTimeout t =
                (t', case rooms t of None \<Rightarrow> [] | Some c \<Rightarrow> [(ToRoom ROOM_ID, view (heap t' ! c))])
              \<and> (x < length (cards rt) \<longrightarrow> \<not> revealed (cards rb ! x))
              \<and> (idx < length (cards rt) \<longrightarrow> \<not> revealed (cards rb ! idx))
              \<and> flipped rb = []
              \<and> currentPlayer rb = 1 - currentPlayer rt
              \<and> (rooms t = Some a \<longrightarrow> fireTimeout t = (t', [(ToRoom ROOM_ID, view rb)])))"
    if "a < length (heap t) \<and> timeouts t = (900, a, x, idx) # rest" for t rest
    unfolding vw
    using that flipBack_run [of a "t\<lparr>timeouts := rest\<rparr>" x idx]
    by (auto simp: fireTimeout_def Let_def back_def broadcastState_def setRevealed_def nth_list_update
             split: option.splits)
  show ?thesis using run window s1 fire by blast
qed

theorem flip_no_match_witness:
  "rooms afterFirstFlip = Some 0
   \<and> flipped (heap afterFirstFlip ! 0) = [0]
   \<and> pairId (cards (heap afterFirstFlip ! 0) ! 0) \<noteq> pairId (cards (heap afterFirstFlip ! 0) ! 2)
   \<and> (case flip ''A'' 2 True afterFirstFlip of
         Inl e \<Rightarrow> False
       | Inr (s1, ev) \<Rightarrow>
           timeouts s1 = [(900, 0, 0, 2)]
           \<and> flipped (heap s1 ! 0) = [0, 2]
           \<and> map revealed (take 3 (cards (heap s1 ! 0))) = [True, False, True]
           \<and> ev = [(ToRoom ROOM_ID,
                     State (cards (heap s1 ! 0)) [(''Ann'', 0, 0, 0), (''Bob'', 0, 1, 0)] 0 (180, True)
                       [A ''Ann'' ''so'', Q ''Bob'' ''why'']),
                    (ToSocket ''A'', Ack True None)]
           \<and> flip ''A'' 5 True s1 = Inr (s1, [])
           \<and> flip ''B'' 5 True s1 = Inr (s1, [(ToSocket ''B'', Ack False (Some ''Not your turn.''))])
           \<and> (case fireTimeout s1 of
                 (t', ev') \<Rightarrow>
                   map revealed (take 3 (cards (heap t' ! 0))) = [False, False, False]
                   \<and> flipped (heap t' ! 0) = []
                   \<and> currentPlayer (heap t' ! 0) = 1
                   \<and> hd (log_r (heap t' ! 0)) = Info ''No match. It's now Bob's turn.''
                   \<and> timeouts t' = []
                   \<and> ev' = [(ToRoom ROOM_ID,
                              State (cards (heap t' ! 0)) [(''Ann'', 0, 0, 0), (''Bob'', 0, 1, 0)] 1
                                (180, True) [A ''Ann'' ''so'', Q ''Bob'' ''why''])]))"
proof -
  have "case exec init (twoPlayers @ [AskQuestion ''B'' ''why'' True, AnswerQuestion ''A'' ''so'' True,
                                      Flip ''A'' 0 True]) of
          Inl e \<Rightarrow> False
        | Inr (f, ev0) \<Rightarrow>
            (rooms f = Some 0 \<and> 0 < length (heap f)
             \<and> \<not> gameOver (heap f ! 0)
             \<and> findIndex (\<lambda>p. id_p p = ''A'') (players (heap f ! 0)) = currentPlayer (heap f ! 0)
             \<and> currentPlayer (heap f ! 0) \<noteq> - 1
             \<and> 2 < length (cards (heap f ! 0))
             \<and> \<not> revealed (cards (heap f ! 0) ! 2)
             \<and> \<not> matched (cards (heap f ! 0) ! 2)
             \<and> flipped (heap f ! 0) = [0]
             \<and> 0 < length (cards (heap f ! 0))
             \<and> pairId (cards (heap f ! 0) ! 0) \<noteq> pairId (cards (heap f ! 0) ! 2))
            \<and> (case flip ''A'' 2 True f of
                 Inl e \<Rightarrow> False
               | Inr (s1, ev) \<Rightarrow>
                   timeouts s1 = [(900, 0, 0, 2)]
                   \<and> flipped (heap s1 ! 0) = [0, 2]
                   \<and> map revealed (take 3 (cards (heap s1 ! 0))) = [True, False, True]
                   \<and> ev = [(ToRoom ROOM_ID,
                             State (cards (heap s1 ! 0)) [(''Ann'', 0, 0, 0), (''Bob'', 0, 1, 0)] 0 (180, True)
                               [A ''Ann'' ''so'', Q ''Bob'' ''why'']),
                            (ToSocket ''A'', Ack True None)]
                   \<and> flip ''A'' 5 True s1 = Inr (s1, [])
                   \<and> flip ''B'' 5 True s1 = Inr (s1, [(ToSocket ''B'', Ack False (Some ''Not your turn.''))])
                   \<and> (case fireTimeout s1 of
                         (t', ev') \<Rightarrow>
                           map revealed (take 3 (cards (heap t' ! 0))) = [False, False, False]
                           \<and> flipped (heap t' ! 0) = []
                           \<and> currentPlayer (heap t' ! 0) = 1
                           \<and> hd (log_r (heap t' ! 0)) = Info ''No match. It's now Bob's turn.''
                           \<and> timeouts t' = []
                           \<and> ev' = [(ToRoom ROOM_ID,
                                      State (cards (heap t' ! 0)) [(''Ann'', 0, 0, 0), (''Bob'', 0, 1, 0)] 1
                                        (180, True) [A ''Ann'' ''so'', Q ''Bob'' ''why''])]))"
    by code_simp
  then obtain f ev0 where
    run: "exec init (twoPlayers @ [AskQuestion ''B'' ''why'' True, AnswerQuestion ''A'' ''so'' True,
                                   Flip ''A'' 0 True]) = Inr (f, ev0)"
    and h: "rooms f = Some 0" "0 < length (heap f)"
      "\<not> gameOver (heap f ! 0)"
      "findIndex (\<lambda>p. id_p p = ''A'') (players (heap f ! 0)) = currentPlayer (heap f ! 0)"
      "currentPlayer (heap f ! 0) \<noteq> - 1"
      "2 < length (cards (heap f ! 0))"
      "\<not> revealed (cards (heap f ! 0) ! 2)"
      "\<not> matched (cards (heap f ! 0) ! 2)"
      "flipped (heap f ! 0) = [0]"
      "0 < length (cards (heap f ! 0))"
      "pairId (cards (heap f ! 0) ! 0) \<noteq> pairId (cards (heap f ! 0) ! 2)"
    and e: "case flip ''A'' 2 True f of
                 Inl e \<Rightarrow> False
               | Inr (s1, ev) \<Rightarrow>
                   timeouts s1 = [(900, 0, 0, 2)]
                   \<and> flipped (heap s1 ! 0) = [0, 2]
                   \<and> map revealed (take 3 (cards (heap s1 ! 0))) = [True, False, True]
                   \<and> ev = [(ToRoom ROOM_ID,
                             State (cards (heap s1 ! 0)) [(''Ann'', 0, 0, 0), (''Bob'', 0, 1, 0)] 0 (180, True)
                               [A ''Ann'' ''so'', Q ''Bob'' ''why'']),
                            (ToSocket ''A'', Ack True None)]
                   \<and> flip ''A'' 5 True s1 = Inr (s1, [])
                   \<and> flip ''B'' 5 True s1 = Inr (s1, [(ToSocket ''B'', Ack False (Some ''Not your turn.''))])
                   \<and> (case fireTimeout s1 of
                         (t', ev') \<Rightarrow>
                           map revealed (take 3 (cards (heap t' ! 0))) = [False, False, False]
                           \<and> flipped (heap t' ! 0) = []
                           \<and> currentPlayer (heap t' ! 0) = 1
                           \<and> hd (log_r (heap t' ! 0)) = Info ''No match. It's now Bob's turn.''
                           \<and> timeouts t' = []
                           \<and> ev' = [(ToRoom ROOM_ID,
                                      State (cards (heap t' ! 0)) [(''Ann'', 0, 0, 0), (''Bob'', 0, 1, 0)] 1
                                        (180, True) [A ''Ann'' ''so'', Q ''Bob'' ''why''])])"
    by (auto split: sum.splits)
  have f: "afterFirstFlip = f" using after_eq [OF run] by (simp add: afterFirstFlip_def)
  have returns: "\<exists>s1 ev. flip ''A'' 2 True f = Inr (s1, ev) \<and> rooms s1 = Some 0"
    using flip_no_match [OF h, of True] by blast
  show ?thesis
    unfolding f using returns h(1,9,11) e by auto
qed

subsection \<open>Asking a question\<close>

text \<open>
  C1. The handler has no check of \<open>questionsLeft\<close>. Ann has asked five questions and
  has none left; her sixth \<open>askQuestion\<close> is accepted like the others: it is counted,
  logged, sent to Bob and acknowledged, and her remaining count is \<open>-1\<close>.
\<close>

theorem askQuestion_sixth_accepted:
  "rooms fiveAsked = Some 0
   \<and> map questionsLeft (players (heap fiveAsked ! 0)) = [0, 5]
   \<and> (case askQuestion ''A'' ''again'' True fiveAsked of
         (s', ev) \<Rightarrow>
           map asked (players (heap s' ! 0)) = [6, 0]
           \<and> map questionsLeft (players (heap s' ! 0)) = [- 1, 5]
           \<and> log_r (heap s' ! 0) = Q ''Ann'' ''again'' # log_r (heap fiveAsked ! 0)
           \<and> hd ev = (ToSocket ''B'', QuestionForAnswer ''Ann'' ''again'')
           \<and> last ev = (ToSocket ''A'', Ack True None))"
  by code_simp

subsection \<open>How the handlers change the state\<close>

lemma nth_modify:
  "xs[a := v] ! b = (if b = a \<and> a < length xs then v else xs ! b)"
  by (cases "a < length xs") (auto simp: nth_list_update list_update_beyond)

lemma quiet_refl [simp]: "quiet s s"
  and sameClock_refl [simp]: "sameClock s s"
  by (simp_all add: quiet_def sameClock_def)

lemma quiet_trans: "quiet s t \<Longrightarrow> quiet t u \<Longrightarrow> quiet s u"
  by (auto simp: quiet_def)

lemma sameClock_trans: "sameClock s t \<Longrightarrow> sameClock t u \<Longrightarrow> sameClock s u"
  by (simp add: sameClock_def)

lemma quiet_modify:
  assumes "\<And>r. cards (f r) = cards r \<and> flipped (f r) = flipped r \<and> (gameOver r \<longrightarrow> gameOver (f r))"
  shows "quiet s (modify a f s)"
  using assms by (simp add: quiet_def nth_modify)

lemma sameClock_modify:
  assumes "\<And>r. remaining (timer (f r)) = remaining (timer r)"
  shows "sameClock s (modify a f s)"
  using assms by (simp add: sameClock_def nth_modify)

lemma quiet_clearInterval [simp]: "quiet s (clearInterval h s)"
  and sameClock_clearInterval [simp]: "sameClock s (clearInterval h s)"
  by (simp_all add: quiet_def sameClock_def)

lemma startTimer_quiet: "quiet s (startTimer s)" and startTimer_clock: "sameClock s (startTimer s)"
  by (auto simp: startTimer_def Let_def quiet_def sameClock_def nth_modify split: option.splits)

lemma resumeTimer_quiet: "quiet s (resumeTimer s)" and resumeTimer_clock: "sameClock s (resumeTimer s)"
  using startTimer_quiet startTimer_clock
  by (auto simp: resumeTimer_def split: option.splits)

lemma pauseTimer_quiet: "quiet s (fst (pauseTimer s))"
  and pauseTimer_clock: "sameClock s (fst (pauseTimer s))"
  and pauseTimer_silent: "declared (snd (pauseTimer s)) = 0"
  by (auto simp: pauseTimer_def Let_def quiet_def sameClock_def nth_modify declared_def
      isGameOverMsg_def split: option.splits)

lemma pauseTimer_stops:
  "rooms s = Some a \<Longrightarrow> a < length (heap s) \<Longrightarrow> \<not> running (timer (heap (fst (pauseTimer s)) ! a))"
  by (auto simp: pauseTimer_def Let_def nth_modify)

lemma checkGameOver_quiet:
  assumes "checkGameOver s = Inr (s', ev)"
  shows "quiet s s'" and "sameClock s s'" and "rooms s' = rooms s" and "declared ev \<le> 1"
  using assms
  by (auto simp: checkGameOver_def Let_def quiet_def sameClock_def nth_modify declared_def
      isGameOverMsg_def pauseTimer_def
      split: option.splits if_splits prod.splits)

lemma checkGameOver_over:
  assumes "rooms s = Some a" "gameOver (heap s ! a)"
  shows "checkGameOver s = Inr (s, [])"
  using assms by (simp add: checkGameOver_def)

lemma checkGameOver_none:
  assumes "rooms s = None"
  shows "checkGameOver s = Inr (s, [])"
  using assms by (simp add: checkGameOver_def)

lemma checkGameOver_declared:
  assumes "checkGameOver s = Inr (s', ev)" "0 < declared ev"
  shows "\<exists>a. rooms s = Some a \<and> \<not> gameOver (heap s ! a)
           \<and> (a < length (heap s) \<longrightarrow> gameOver (heap s' ! a))
           \<and> (a < length (heap s) \<longrightarrow> \<not> running (timer (heap s' ! a))
                 \<or> (remaining (timer (heap s ! a)) \<le> 0 \<and> running (timer (heap s ! a))))"
  using assms
  by (auto simp: checkGameOver_def Let_def nth_modify declared_def isGameOverMsg_def pauseTimer_def
      split: option.splits if_splits prod.splits)

lemma checkGameOver_expired:
  assumes "checkGameOver s = Inr (s', ev)" "rooms s = Some a" "a < length (heap s)"
    and "remaining (timer (heap s ! a)) \<le> 0"
  shows "gameOver (heap s' ! a)"
  using assms
  by (auto simp: checkGameOver_def Let_def nth_modify pauseTimer_def
      split: option.splits if_splits prod.splits)

lemma broadcastState_silent [simp]: "declared (broadcastState s) = 0"
  by (simp add: broadcastState_def declared_def isGameOverMsg_def snapshot_def split: option.splits)

lemma ack_silent [simp]: "declared (ack cb sid ok err) = 0"
  by (simp add: ack_def declared_def isGameOverMsg_def)

lemma declared_append [simp]: "declared (xs @ ys) = declared xs + declared ys"
  by (simp add: declared_def)

lemma declared_Nil [simp]: "declared [] = 0"
  by (simp add: declared_def)

lemma declared_Cons:
  "declared (e # es) = (if isGameOverMsg e then 1 else 0) + declared es"
  by (simp add: declared_def)

lemma askQuestion_quiet:
  assumes "askQuestion sid text cb s = (s', ev)"
  shows "quiet s s'" and "sameClock s s'" and "declared ev = 0"
  using assms
  by (auto simp: askQuestion_def Let_def quiet_def sameClock_def nth_modify declared_Cons
      isGameOverMsg_def split: option.splits)

lemma answerQuestion_quiet:
  assumes "answerQuestion sid text cb s = (s', ev)"
  shows "quiet s s'" and "sameClock s s'" and "declared ev = 0"
proof -
  obtain a where "rooms s = None \<or> rooms s = Some a" by (cases "rooms s") auto
  then show "quiet s s'" and "sameClock s s'" and "declared ev = 0"
    using assms
      quiet_trans [OF quiet_modify resumeTimer_quiet]
      sameClock_trans [OF sameClock_modify resumeTimer_clock]
    by (auto simp: answerQuestion_def Let_def declared_Cons isGameOverMsg_def
        intro!: quiet_modify sameClock_modify split: if_splits)
qed

lemma quiet_modifyI:
  assumes "quiet s t"
    and "\<And>r. cards (f r) = cards r \<and> flipped (f r) = flipped r \<and> (gameOver r \<longrightarrow> gameOver (f r))"
  shows "quiet s (modify a f t)"
  using quiet_trans [OF assms(1) quiet_modify [of f t a]] assms(2) by blast

lemma quiet_clearI: "quiet s t \<Longrightarrow> quiet s (clearInterval h t)"
  using quiet_trans quiet_clearInterval by blast

lemma quiet_pauseI: "quiet s t \<Longrightarrow> quiet s (fst (pauseTimer t))"
  using quiet_trans pauseTimer_quiet by blast

lemma quiet_startI: "quiet s t \<Longrightarrow> quiet s (startTimer t)"
  using quiet_trans startTimer_quiet by blast

lemma quiet_resumeI: "quiet s t \<Longrightarrow> quiet s (resumeTimer t)"
  using quiet_trans resumeTimer_quiet by blast

lemma quiet_unregisterI: "quiet s t \<Longrightarrow> quiet s (t\<lparr>rooms := None\<rparr>)"
  by (simp add: quiet_def)

lemma sameClock_modifyI:
  assumes "sameClock s t" and "\<And>r. remaining (timer (f r)) = remaining (timer r)"
  shows "sameClock s (modify a f t)"
  using sameClock_trans [OF assms(1) sameClock_modify [of f t a]] assms(2) by blast

lemma sameClock_clearI: "sameClock s t \<Longrightarrow> sameClock s (clearInterval h t)"
  using sameClock_trans sameClock_clearInterval by blast

lemma sameClock_pauseI: "sameClock s t \<Longrightarrow> sameClock s (fst (pauseTimer t))"
  using sameClock_trans pauseTimer_clock by blast

lemma sameClock_startI: "sameClock s t \<Longrightarrow> sameClock s (startTimer t)"
  using sameClock_trans startTimer_clock by blast

lemma sameClock_resumeI: "sameClock s t \<Longrightarrow> sameClock s (resumeTimer t)"
  using sameClock_trans resumeTimer_clock by blast

lemma sameClock_unregisterI: "sameClock s t \<Longrightarrow> sameClock s (t\<lparr>rooms := None\<rparr>)"
  by (simp add: sameClock_def)

lemmas quietI = quiet_modifyI quiet_clearI quiet_pauseI quiet_startI quiet_resumeI
  quiet_unregisterI quiet_refl

lemmas sameClockI = sameClock_modifyI sameClock_clearI sameClock_pauseI sameClock_startI
  sameClock_resumeI sameClock_unregisterI sameClock_refl

lemma disconnect_quiet:
  assumes "disconnect sid s = (s', ev)"
  shows "quiet s s'" and "sameClock s s'" and "declared ev = 0"
proof -
  show "quiet s s'"
    using assms unfolding disconnect_def Let_def case_prod_beta
    by (auto intro!: quietI split: option.splits if_splits)
  show "sameClock s s'"
    using assms unfolding disconnect_def Let_def case_prod_beta
    by (auto intro!: sameClockI split: option.splits if_splits)
  show "declared ev = 0"
    using assms pauseTimer_silent unfolding disconnect_def Let_def case_prod_beta
    by (auto split: option.splits if_splits)
qed

lemma grown_alloc:
  assumes "flipped r0 = []" "remaining (timer r0) = 180"
  shows "grown s (s\<lparr>heap := heap s @ [r0], rooms := Some (length (heap s))\<rparr>)"
  using assms by (simp add: grown_def nth_append)

lemma grown_then_quiet:
  assumes "grown s t" "quiet t u" "sameClock t u"
  shows "grown s u"
  using assms unfolding grown_def quiet_def sameClock_def
  by (elim conjE) (intro conjI; metis)

lemma connection_quiet:
  assumes "connection sid nm rnd s = (s', ev)" "rooms s = Some a"
  shows "quiet s s'" and "sameClock s s'"
proof -
  show "quiet s s'"
    using assms unfolding connection_def Let_def
    by (auto intro!: quietI split: if_splits)
  show "sameClock s s'"
    using assms unfolding connection_def Let_def
    by (auto intro!: sameClockI split: if_splits)
qed

lemma connection_silent:
  assumes "connection sid nm rnd s = (s', ev)"
  shows "declared ev = 0"
  using assms by (auto simp: connection_def Let_def declared_Cons isGameOverMsg_def)

lemma connection_grown:
  assumes "connection sid nm rnd s = (s', ev)" "rooms s = None"
  shows "grown s s'"
proof -
  let ?s1 = "s\<lparr>heap := heap s @ [createNewGameState rnd], rooms := Some (length (heap s))\<rparr>"
  have g: "grown s ?s1" by (rule grown_alloc) (simp_all add: createNewGameState_def)
  have "quiet ?s1 s'"
    using assms unfolding connection_def Let_def
    by (auto intro!: quietI split: if_splits)
  moreover have "sameClock ?s1 s'"
    using assms unfolding connection_def Let_def
    by (auto intro!: sameClockI split: if_splits)
  ultimately show ?thesis using grown_then_quiet [OF g] by blast
qed

lemma rematch_cases:
  assumes "rematch sid cb rnd s = (s', ev)"
  shows "s' = s \<or> grown s s'" and "declared ev = 0"
proof -
  show "declared ev = 0"
    using assms
    by (auto simp: rematch_def Let_def declared_Cons isGameOverMsg_def split: option.splits if_splits)
  show "s' = s \<or> grown s s'"
  proof (cases "\<exists>a. rooms s = Some a \<and> length (players (heap s ! a)) = 2")
    case False
    then have "s' = s" using assms by (auto simp: rematch_def split: option.splits)
    then show ?thesis ..
  next
    case True
    then obtain a where a: "rooms s = Some a" "length (players (heap s ! a)) = 2" by blast
    let ?r0 = "(createNewGameState rnd)\<lparr>players := map resetPlayer (players (heap s ! a))\<rparr>"
    let ?s1 = "s\<lparr>heap := heap s @ [?r0], rooms := Some (length (heap s))\<rparr>"
    have g: "grown s ?s1" by (rule grown_alloc) (simp_all add: createNewGameState_def)
    have "s' = startTimer ?s1" using assms a by (simp add: rematch_def Let_def)
    then have "grown s s'"
      using grown_then_quiet [OF g startTimer_quiet startTimer_clock] by simp
    then show ?thesis ..
  qed
qed

lemma tick_quiet:
  assumes "tick h s = Inr (s', ev)"
  shows "quiet s s'" and "declared ev \<le> 1"
proof -
  show "quiet s s'"
  proof (cases "map_of (intervals s) h")
    case None
    then show ?thesis using assms by (simp add: tick_def)
  next
    case (Some a)
    let ?s1 = "modify a (\<lambda>r. r\<lparr>timer := (timer r)\<lparr>remaining := remaining (timer r) - 1\<rparr>\<rparr>) s"
    show ?thesis
    proof (cases "remaining (timer (heap ?s1 ! a)) \<le> 0")
      case False
      then have "s' = ?s1" using assms Some by (simp add: tick_def Let_def)
      then show ?thesis by (simp add: quiet_modify)
    next
      case True
      let ?s4 = "modify a (\<lambda>r. r\<lparr>log_r := Info ''Time is up.'' # log_r r\<rparr>)
                  (modify a (\<lambda>r. r\<lparr>timer := (timer r)\<lparr>running := False\<rparr>\<rparr>)
                    (clearInterval (intervalId (timer (heap ?s1 ! a))) ?s1))"
      obtain ev3 where c: "checkGameOver ?s4 = Inr (s', ev3)"
        using assms Some True unfolding tick_def Let_def
        by (auto split: sum.splits)
      have "quiet s ?s4"
        by (intro quietI) simp_all
      then show ?thesis using checkGameOver_quiet(1) [OF c] quiet_trans by blast
    qed
  qed
  show "declared ev \<le> 1"
    using assms checkGameOver_quiet(4)
    unfolding tick_def Let_def
    by (auto simp: declared_Cons isGameOverMsg_def split: option.splits if_splits sum.splits)
qed

text \<open>
  The ways a flip can return: rejected; the first card of a turn; the second card
  without a match; the second card with a match, which ends in the evaluator.
\<close>

lemma flip_cases:
  assumes "flip sid idx cb s = Inr (s', ev)" and "rooms s = Some a" and "a < length (heap s)"
  obtains
    (rejected) "s' = s" "declared ev = 0"
  | (first) "\<not> gameOver (heap s ! a)" "idx < length (cards (heap s ! a))"
      "\<not> matched (cards (heap s ! a) ! idx)" "flipped (heap s ! a) = []"
      "s' = modify a (reveal idx) s" "declared ev = 0"
  | (mismatch) x where "\<not> gameOver (heap s ! a)" "idx < length (cards (heap s ! a))"
      "\<not> matched (cards (heap s ! a) ! idx)" "flipped (heap s ! a) = [x]"
      "s' = (modify a (reveal idx) s)\<lparr>timeouts := timeouts s @ [(900, a, x, idx)]\<rparr>"
      "declared ev = 0"
  | (match) x k ev4 where "\<not> gameOver (heap s ! a)" "idx < length (cards (heap s ! a))"
      "\<not> matched (cards (heap s ! a) ! idx)" "flipped (heap s ! a) = [x]"
      "x < length (cards (heap s ! a))"
      "checkGameOver (fst (pauseTimer (modify a (isPair k x idx) (modify a (reveal idx) s)))) = Inr (s', ev4)"
      "declared ev = declared ev4"
proof (cases "gameOver (heap s ! a) \<or> findIndex (\<lambda>p. id_p p = sid) (players (heap s ! a)) = - 1
    \<or> currentPlayer (heap s ! a) \<noteq> findIndex (\<lambda>p. id_p p = sid) (players (heap s ! a))
    \<or> \<not> idx < length (cards (heap s ! a)) \<or> revealed (cards (heap s ! a) ! idx)
    \<or> matched (cards (heap s ! a) ! idx) \<or> length (flipped (heap s ! a)) \<ge> 2")
  case True
  then have "s' = s" "declared ev = 0"
    using assms by (auto simp: flip_def Let_def split: if_splits)
  then show ?thesis by (rule rejected)
next
  case False
  then have ok: "\<not> gameOver (heap s ! a)" "idx < length (cards (heap s ! a))"
    "\<not> matched (cards (heap s ! a) ! idx)" "length (flipped (heap s ! a)) < 2"
    "\<not> revealed (cards (heap s ! a) ! idx)"
    "findIndex (\<lambda>p. id_p p = sid) (players (heap s ! a)) \<noteq> - 1"
    "currentPlayer (heap s ! a) = findIndex (\<lambda>p. id_p p = sid) (players (heap s ! a))"
    by auto
  show ?thesis
  proof (cases "flipped (heap s ! a)")
    case Nil
    then have "s' = modify a (reveal idx) s" "declared ev = 0"
      using assms ok unfolding flip_def Let_def
      by (auto simp: reveal_def)
    then show ?thesis using ok Nil first by blast
  next
    case (Cons x rest)
    then have fl: "flipped (heap s ! a) = [x]" using ok(4) by (cases rest) auto
    have xin: "x < length (cards (heap s ! a))"
      using assms ok fl unfolding flip_def Let_def
      by (auto split: if_splits)
    show ?thesis
    proof (cases "pairId (cards (heap s ! a) ! x) = pairId (cards (heap s ! a) ! idx)")
      case False
      have pid: "pairId (setRevealed True idx (cards (heap s ! a)) ! x) = pairId (cards (heap s ! a) ! x)"
        "pairId (setRevealed True idx (cards (heap s ! a)) ! idx) = pairId (cards (heap s ! a) ! idx)"
        using xin ok(2) by (auto simp: setRevealed_def nth_list_update)
      have "s' = (modify a (reveal idx) s)\<lparr>timeouts := timeouts s @ [(900, a, x, idx)]\<rparr>"
        "declared ev = 0"
        using assms ok fl xin False pid unfolding flip_def Let_def
        by (auto simp: reveal_def)
      then show ?thesis using ok fl mismatch by blast
    next
      case True
      have pid: "pairId (setRevealed True idx (cards (heap s ! a)) ! x) = pairId (cards (heap s ! a) ! x)"
        "pairId (setRevealed True idx (cards (heap s ! a)) ! idx) = pairId (cards (heap s ! a) ! idx)"
        using xin ok(2) by (auto simp: setRevealed_def nth_list_update)
      let ?k = "nat (findIndex (\<lambda>p. id_p p = sid) (players (heap s ! a)))"
      let ?s5 = "fst (pauseTimer (modify a (isPair ?k x idx) (modify a (reveal idx) s)))"
      have "\<exists>ev4. checkGameOver ?s5 = Inr (s', ev4) \<and> declared ev = declared ev4"
        using assms ok fl xin True pid pauseTimer_silent unfolding flip_def Let_def case_prod_beta
        by (auto simp: reveal_def isPair_def modify_def declared_Cons isGameOverMsg_def Let_def
            split: sum.splits)
      then show ?thesis using ok fl xin match by blast
    qed
  qed
qed

subsection \<open>The invariant holds in every reachable state\<close>

lemma wf_init: "wellFormed init"
  by (simp add: wellFormed_def pointerOk_def expiredIsOver_def pendingOk_def init_def)

lemma wf_quiet:
  assumes "wellFormed s" "quiet s s'" "sameClock s s'"
  shows "wellFormed s'"
proof -
  have p: "pointerOk s'"
    using assms by (auto simp: wellFormed_def pointerOk_def quiet_def split: option.splits)
  have e: "expiredIsOver s'"
    using assms
    by (auto simp: wellFormed_def expiredIsOver_def quiet_def sameClock_def split: option.splits)
  have f: "\<forall>a<length (heap s'). flippedOk (heap s' ! a)"
    using assms by (simp add: wellFormed_def flippedOk_def quiet_def)
  have q: "pendingOk s'"
    using assms by (simp add: wellFormed_def pendingOk_def quiet_def)
  show ?thesis using p e f q by (simp add: wellFormed_def)
qed

lemma wf_grown:
  assumes "wellFormed s" "grown s s'"
  shows "wellFormed s'"
proof -
  have p: "pointerOk s'"
    using assms by (auto simp: pointerOk_def grown_def split: option.splits)
  have e: "expiredIsOver s'"
    using assms by (auto simp: expiredIsOver_def grown_def split: option.splits)
  have f: "flippedOk (heap s' ! a)" if "a < length (heap s')" for a
  proof (cases "a < length (heap s)")
    case True
    then show ?thesis using assms by (simp add: wellFormed_def flippedOk_def grown_def)
  next
    case False
    then have "a = length (heap s)" using that assms(2) by (simp add: grown_def)
    then show ?thesis using assms(2) by (simp add: flippedOk_def grown_def)
  qed
  have q: "pendingOk s'"
    using assms by (auto simp: wellFormed_def pendingOk_def grown_def less_Suc_eq)
  show ?thesis using p e f q by (simp add: wellFormed_def)
qed

lemma wf_pending:
  assumes "wellFormed s" "(d, a, x, y) \<in> set (timeouts s)"
  shows "a < length (heap s)" and "flipped (heap s ! a) = [x, y]"
    and "x < length (cards (heap s ! a))" and "\<not> matched (cards (heap s ! a) ! x)"
    and "y < length (cards (heap s ! a))" and "\<not> matched (cards (heap s ! a) ! y)"
proof -
  show a: "a < length (heap s)" and fl: "flipped (heap s ! a) = [x, y]"
    using assms by (auto simp: wellFormed_def pendingOk_def)
  have "flippedOk (heap s ! a)" using assms(1) a by (simp add: wellFormed_def)
  then show "x < length (cards (heap s ! a))" "\<not> matched (cards (heap s ! a) ! x)"
    "y < length (cards (heap s ! a))" "\<not> matched (cards (heap s ! a) ! y)"
    using fl by (simp_all add: flippedOk_def)
qed

text \<open>Changing one room object.\<close>

lemma wf_modify:
  assumes wf: "wellFormed s" and a: "a < length (heap s)"
    and clock: "remaining (timer (f (heap s ! a))) \<le> 0 \<and> rooms s = Some a \<longrightarrow> gameOver (f (heap s ! a))"
    and fl: "flippedOk (f (heap s ! a))"
    and pend: "flipped (f (heap s ! a)) = flipped (heap s ! a)
               \<or> a \<notin> (\<lambda>e. fst (snd e)) ` set (timeouts s)"
  shows "wellFormed (modify a f s)"
proof -
  have p: "pointerOk (modify a f s)"
    using wf by (auto simp: wellFormed_def pointerOk_def split: option.splits)
  have e: "expiredIsOver (modify a f s)"
    using wf a clock
    by (auto simp: wellFormed_def expiredIsOver_def nth_modify split: option.splits)
  have f: "\<forall>b<length (heap (modify a f s)). flippedOk (heap (modify a f s) ! b)"
    using wf a fl by (simp add: wellFormed_def nth_modify)
  have q: "pendingOk (modify a f s)"
    using wf a pend by (auto simp: wellFormed_def pendingOk_def nth_modify)
  show ?thesis using p e f q by (simp add: wellFormed_def)
qed

lemma wf_schedule:
  assumes wf: "wellFormed s" and a: "a < length (heap s)"
    and fl: "flipped (heap s ! a) = [x, y]"
    and fresh: "a \<notin> (\<lambda>e. fst (snd e)) ` set (timeouts s)"
  shows "wellFormed (s\<lparr>timeouts := timeouts s @ [(d, a, x, y)]\<rparr>)"
  using assms
  by (auto simp: wellFormed_def pointerOk_def expiredIsOver_def pendingOk_def split: option.splits)

lemma wf_pop:
  assumes wf: "wellFormed s" and "timeouts s = e # rest"
  shows "wellFormed (s\<lparr>timeouts := rest\<rparr>)" and "fst (snd e) \<notin> (\<lambda>e. fst (snd e)) ` set rest"
  using assms
  by (auto simp: wellFormed_def pointerOk_def expiredIsOver_def pendingOk_def split: option.splits)

lemma wf_quiet_expired:
  assumes "wellFormed s" "quiet s s'" "expiredIsOver s'"
  shows "wellFormed s'"
proof -
  have p: "pointerOk s'"
    using assms by (auto simp: wellFormed_def pointerOk_def quiet_def split: option.splits)
  have f: "\<forall>a<length (heap s'). flippedOk (heap s' ! a)"
    using assms by (simp add: wellFormed_def flippedOk_def quiet_def)
  have q: "pendingOk s'"
    using assms by (simp add: wellFormed_def pendingOk_def quiet_def)
  show ?thesis using p assms(3) f q by (simp add: wellFormed_def)
qed

lemma no_pending:
  assumes "wellFormed s" "length (flipped (heap s ! a)) \<noteq> 2"
  shows "a \<notin> (\<lambda>e. fst (snd e)) ` set (timeouts s)"
  using assms by (auto simp: wellFormed_def pendingOk_def)

lemma wf_tick:
  assumes wf: "wellFormed s" and t: "tick h s = Inr (s', ev)"
  shows "wellFormed s'"
proof (cases "map_of (intervals s) h")
  case None
  then show ?thesis using wf t by (simp add: tick_def)
next
  case (Some a)
  let ?dec = "\<lambda>r. r\<lparr>timer := (timer r)\<lparr>remaining := remaining (timer r) - 1\<rparr>\<rparr>"
  let ?s1 = "modify a ?dec s"
  have q: "quiet s s'" by (rule tick_quiet(1) [OF t])
  show ?thesis
  proof (cases "remaining (timer (heap ?s1 ! a)) \<le> 0")
    case False
    then have s': "s' = ?s1" using t Some by (simp add: tick_def Let_def)
    have "expiredIsOver ?s1"
      using wf False
      by (auto simp: wellFormed_def expiredIsOver_def nth_modify split: option.splits if_splits)
    then show ?thesis using wf_quiet_expired [OF wf q] s' by simp
  next
    case True
    let ?s4 = "modify a (\<lambda>r. r\<lparr>log_r := Info ''Time is up.'' # log_r r\<rparr>)
                (modify a (\<lambda>r. r\<lparr>timer := (timer r)\<lparr>running := False\<rparr>\<rparr>)
                  (clearInterval (intervalId (timer (heap ?s1 ! a))) ?s1))"
    obtain ev3 where c: "checkGameOver ?s4 = Inr (s', ev3)"
      using t Some True unfolding tick_def Let_def by (auto split: sum.splits)
    note cq = checkGameOver_quiet [OF c]
    have "expiredIsOver s'"
    proof (cases "rooms s")
      case None
      then have "rooms s' = None" using cq(3) by simp
      then show ?thesis by (simp add: expiredIsOver_def)
    next
      case (Some c')
      then have r': "rooms s' = Some c'" and r4: "rooms ?s4 = Some c'" using cq(3) by simp_all
      have c'len: "c' < length (heap s)" using wf Some by (simp add: wellFormed_def pointerOk_def)
      show ?thesis
      proof (cases "c' = a")
        case True
        have "remaining (timer (heap ?s4 ! a)) \<le> 0"
          using \<open>remaining (timer (heap ?s1 ! a)) \<le> 0\<close> c'len True by (simp add: nth_modify)
        then have "gameOver (heap s' ! a)"
          using checkGameOver_expired [OF c, of a] r4 True c'len by simp
        then show ?thesis using r' True by (simp add: expiredIsOver_def)
      next
        case False
        have "remaining (timer (heap s' ! c')) = remaining (timer (heap ?s4 ! c'))"
          using cq(2) by (simp add: sameClock_def)
        also have "\<dots> = remaining (timer (heap s ! c'))"
          using False by (simp add: nth_modify)
        finally have "remaining (timer (heap s' ! c')) = remaining (timer (heap s ! c'))" .
        moreover have "gameOver (heap s ! c') \<longrightarrow> gameOver (heap s' ! c')"
          using q by (simp add: quiet_def)
        ultimately show ?thesis using wf Some r'
          by (auto simp: wellFormed_def expiredIsOver_def)
      qed
    qed
    then show ?thesis using wf_quiet_expired [OF wf q] by simp
  qed
qed

lemma fireTimeout_shape:
  "fireTimeout s =
     (case timeouts s of
        [] \<Rightarrow> (s, [])
      | (d, a, x, y) # rest \<Rightarrow>
          (let s2 = modify a (\<lambda>r. r\<lparr>log_r := Info (noMatchText (nameOrUndefined r)) # log_r r\<rparr>)
                      (modify a (unreveal x y) (s\<lparr>timeouts := rest\<rparr>))
           in (s2, broadcastState s2)))"
  by (simp add: fireTimeout_def flipBack_def unreveal_def [abs_def] Let_def split: list.splits)

lemma wf_unreveal:
  assumes wf: "wellFormed s" and ts: "timeouts s = (d, a, x, y) # rest"
  shows "wellFormed (modify a (unreveal x y) (s\<lparr>timeouts := rest\<rparr>))"
proof -
  let ?s0 = "s\<lparr>timeouts := rest\<rparr>"
  have wf0: "wellFormed ?s0" and fresh: "a \<notin> (\<lambda>e. fst (snd e)) ` set (timeouts ?s0)"
    using wf_pop [OF wf ts] by simp_all
  have a: "a < length (heap ?s0)" using wf_pending(1) [OF wf, of d a x y] ts by simp
  show ?thesis
  proof (rule wf_modify [OF wf0 a])
    show "remaining (timer (unreveal x y (heap ?s0 ! a))) \<le> 0 \<and> rooms ?s0 = Some a
            \<longrightarrow> gameOver (unreveal x y (heap ?s0 ! a))"
      using wf0 by (auto simp: wellFormed_def expiredIsOver_def unreveal_def)
    show "flippedOk (unreveal x y (heap ?s0 ! a))"
      by (simp add: flippedOk_def unreveal_def)
    show "flipped (unreveal x y (heap ?s0 ! a)) = flipped (heap ?s0 ! a)
            \<or> a \<notin> (\<lambda>e. fst (snd e)) ` set (timeouts ?s0)"
      using fresh by blast
  qed
qed

lemma wf_fireTimeout:
  assumes wf: "wellFormed s" and t: "fireTimeout s = (s', ev)"
  shows "wellFormed s'"
proof (cases "timeouts s")
  case Nil
  then show ?thesis using wf t by (simp add: fireTimeout_shape)
next
  case (Cons e rest)
  obtain d a x y where e: "e = (d, a, x, y)" by (cases e) auto
  let ?s1 = "modify a (unreveal x y) (s\<lparr>timeouts := rest\<rparr>)"
  have s': "s' = modify a (\<lambda>r. r\<lparr>log_r := Info (noMatchText (nameOrUndefined r)) # log_r r\<rparr>) ?s1"
    using t Cons e by (simp add: fireTimeout_shape Let_def)
  have "wellFormed ?s1" using wf_unreveal [OF wf] Cons e by simp
  then show ?thesis
    unfolding s' by (rule wf_quiet) (simp_all add: quiet_modify sameClock_modify)
qed

lemma wf_reveal:
  assumes wf: "wellFormed s" and a: "a < length (heap s)"
    and idx: "idx < length (cards (heap s ! a))" "\<not> matched (cards (heap s ! a) ! idx)"
    and short: "length (flipped (heap s ! a)) < 2"
  shows "wellFormed (modify a (reveal idx) s)"
proof (rule wf_modify [OF wf a])
  show "remaining (timer (reveal idx (heap s ! a))) \<le> 0 \<and> rooms s = Some a
          \<longrightarrow> gameOver (reveal idx (heap s ! a))"
    using wf by (auto simp: wellFormed_def expiredIsOver_def reveal_def)
  have "flippedOk (heap s ! a)" using wf a by (simp add: wellFormed_def)
  then show "flippedOk (reveal idx (heap s ! a))"
    using idx by (auto simp: flippedOk_def reveal_def setRevealed_def nth_list_update)
  show "flipped (reveal idx (heap s ! a)) = flipped (heap s ! a)
          \<or> a \<notin> (\<lambda>e. fst (snd e)) ` set (timeouts s)"
    using no_pending [OF wf, of a] short by simp
qed

lemma wf_isPair:
  assumes wf: "wellFormed s" and a: "a < length (heap s)"
    and short: "length (flipped (heap s ! a)) \<noteq> 2"
  shows "wellFormed (modify a (isPair k x idx) s)"
proof (rule wf_modify [OF wf a])
  show "remaining (timer (isPair k x idx (heap s ! a))) \<le> 0 \<and> rooms s = Some a
          \<longrightarrow> gameOver (isPair k x idx (heap s ! a))"
    using wf by (auto simp: wellFormed_def expiredIsOver_def isPair_def Let_def)
  show "flippedOk (isPair k x idx (heap s ! a))"
    by (simp add: flippedOk_def isPair_def Let_def)
  show "flipped (isPair k x idx (heap s ! a)) = flipped (heap s ! a)
          \<or> a \<notin> (\<lambda>e. fst (snd e)) ` set (timeouts s)"
    using no_pending [OF wf short] by simp
qed

lemma flip_unregistered: "rooms s = None \<Longrightarrow> flip sid idx cb s = Inr (s, [])"
  by (simp add: flip_def)

lemma wf_flip:
  assumes wf: "wellFormed s" and f: "flip sid idx cb s = Inr (s', ev)"
  shows "wellFormed s'"
proof (cases "rooms s")
  case None
  then show ?thesis using wf f by (simp add: flip_unregistered)
next
  case (Some a)
  then have a: "a < length (heap s)" using wf by (simp add: wellFormed_def pointerOk_def)
  from f Some a show ?thesis
  proof (cases rule: flip_cases)
    case rejected
    then show ?thesis using wf by simp
  next
    case first
    then show ?thesis using wf_reveal [OF wf a, of idx] by simp
  next
    case (mismatch x)
    let ?s1 = "modify a (reveal idx) s"
    have wf1: "wellFormed ?s1" using wf_reveal [OF wf a, of idx] mismatch by simp
    have "wellFormed (?s1\<lparr>timeouts := timeouts ?s1 @ [(900, a, x, idx)]\<rparr>)"
    proof (rule wf_schedule [OF wf1])
      show "a < length (heap ?s1)" using a by simp
      show "flipped (heap ?s1 ! a) = [x, idx]" using a mismatch by (simp add: reveal_def)
      show "a \<notin> (\<lambda>e. fst (snd e)) ` set (timeouts ?s1)"
        using no_pending [OF wf, of a] mismatch by simp
    qed
    then show ?thesis using mismatch by simp
  next
    case (match x k ev4)
    let ?s1 = "modify a (reveal idx) s"
    let ?s4 = "modify a (isPair k x idx) ?s1"
    let ?s5 = "fst (pauseTimer ?s4)"
    have wf1: "wellFormed ?s1" using wf_reveal [OF wf a, of idx] match by simp
    have fresh: "a \<notin> (\<lambda>e. fst (snd e)) ` set (timeouts ?s1)"
      using no_pending [OF wf, of a] match by simp
    have wf4: "wellFormed ?s4"
    proof (rule wf_modify [OF wf1])
      show "a < length (heap ?s1)" using a by simp
      show "remaining (timer (isPair k x idx (heap ?s1 ! a))) \<le> 0 \<and> rooms ?s1 = Some a
              \<longrightarrow> gameOver (isPair k x idx (heap ?s1 ! a))"
        using wf1 by (auto simp: wellFormed_def expiredIsOver_def isPair_def Let_def)
      show "flippedOk (isPair k x idx (heap ?s1 ! a))"
        by (simp add: flippedOk_def isPair_def Let_def)
      show "flipped (isPair k x idx (heap ?s1 ! a)) = flipped (heap ?s1 ! a)
              \<or> a \<notin> (\<lambda>e. fst (snd e)) ` set (timeouts ?s1)"
        using fresh by blast
    qed
    have wf5: "wellFormed ?s5" by (rule wf_quiet [OF wf4 pauseTimer_quiet pauseTimer_clock])
    show ?thesis
      using wf_quiet [OF wf5 checkGameOver_quiet(1,2)] match(6) by blast
  qed
qed

lemma wf_step:
  assumes wf: "wellFormed s" and st: "step s i = Inr (s', ev)"
  shows "wellFormed s'"
proof (cases i)
  case (Connect sid nm rnd)
  then have c: "connection sid nm rnd s = (s', ev)" using st by simp
  show ?thesis
  proof (cases "rooms s")
    case None
    then show ?thesis using wf_grown [OF wf connection_grown [OF c]] by simp
  next
    case (Some a)
    then show ?thesis using wf_quiet [OF wf connection_quiet [OF c]] by simp
  qed
next
  case (Rematch sid cb rnd)
  then have "rematch sid cb rnd s = (s', ev)" using st by simp
  then show ?thesis using rematch_cases(1) wf wf_grown by blast
next
  case (Flip sid idx cb)
  then show ?thesis using wf_flip [OF wf] st by simp
next
  case (AskQuestion sid body cb)
  then have "askQuestion sid body cb s = (s', ev)" using st by simp
  then show ?thesis using wf_quiet [OF wf] askQuestion_quiet by blast
next
  case (AnswerQuestion sid body cb)
  then have "answerQuestion sid body cb s = (s', ev)" using st by simp
  then show ?thesis using wf_quiet [OF wf] answerQuestion_quiet by blast
next
  case (Disconnect sid)
  then have "disconnect sid s = (s', ev)" using st by simp
  then show ?thesis using wf_quiet [OF wf] disconnect_quiet by blast
next
  case (Tick h)
  then show ?thesis using wf_tick [OF wf] st by simp
next
  case Timeout
  then show ?thesis using wf_fireTimeout [OF wf] st by simp
qed

lemma reachable_wf: "reachable s \<Longrightarrow> wellFormed s"
  by (induction rule: reachable.induct) (auto intro: wf_init wf_step)

lemma exec_append_reach:
  "reachable s \<Longrightarrow> exec s ins = Inr (s', ev) \<Longrightarrow> reachable s'"
proof (induction ins arbitrary: s ev)
  case Nil
  then show ?case by simp
next
  case (Cons i ins)
  from Cons.prems(2) obtain s1 ev1 ev2 where
    st: "step s i = Inr (s1, ev1)" and ex: "exec s1 ins = Inr (s', ev2)"
    by (auto split: sum.splits)
  have "reachable s1" using reachable.after_step [OF Cons.prems(1) st] .
  then show ?case using Cons.IH ex by blast
qed

lemma reachable_after: "reachable (after ins)"
  using exec_append_reach [OF reachable.at_start, of ins]
  by (auto simp: after_def reachable.at_start split: sum.splits)

subsection \<open>Matched cards\<close>

lemma keeps_refl [simp]: "keepsMatched s s"
  by (simp add: keepsMatched_def)

lemma keeps_trans: "keepsMatched s t \<Longrightarrow> keepsMatched t u \<Longrightarrow> keepsMatched s u"
proof -
  assume st: "keepsMatched s t" and tu: "keepsMatched t u"
  have len: "length (heap s) \<le> length (heap u)"
    using st tu by (simp add: keepsMatched_def)
  have "length (cards (heap u ! a)) = length (cards (heap s ! a))
        \<and> (\<forall>k<length (cards (heap s ! a)).
              matched (cards (heap s ! a) ! k) \<longrightarrow>
                matched (cards (heap u ! a) ! k)
                \<and> revealed (cards (heap u ! a) ! k) = revealed (cards (heap s ! a) ! k))"
    if a: "a < length (heap s)" for a
  proof -
    have at: "a < length (heap t)" using st a by (simp add: keepsMatched_def)
    have 1: "length (cards (heap t ! a)) = length (cards (heap s ! a))"
      and 2: "\<And>k. k < length (cards (heap s ! a)) \<Longrightarrow> matched (cards (heap s ! a) ! k) \<Longrightarrow>
                matched (cards (heap t ! a) ! k)
                \<and> revealed (cards (heap t ! a) ! k) = revealed (cards (heap s ! a) ! k)"
      using st a by (simp_all add: keepsMatched_def)
    have 3: "length (cards (heap u ! a)) = length (cards (heap t ! a))"
      and 4: "\<And>k. k < length (cards (heap t ! a)) \<Longrightarrow> matched (cards (heap t ! a) ! k) \<Longrightarrow>
                matched (cards (heap u ! a) ! k)
                \<and> revealed (cards (heap u ! a) ! k) = revealed (cards (heap t ! a) ! k)"
      using tu at by (simp_all add: keepsMatched_def)
    show ?thesis using 1 2 3 4 by auto
  qed
  then show ?thesis using len by (simp add: keepsMatched_def)
qed

lemma keeps_quiet: "quiet s s' \<Longrightarrow> keepsMatched s s'"
  by (simp add: keepsMatched_def quiet_def)

lemma keeps_grown: "grown s s' \<Longrightarrow> keepsMatched s s'"
  by (simp add: keepsMatched_def grown_def)

lemma keeps_modify:
  assumes "length (cards (f (heap s ! a))) = length (cards (heap s ! a))"
    and "\<And>k. k < length (cards (heap s ! a)) \<Longrightarrow> matched (cards (heap s ! a) ! k) \<Longrightarrow>
           matched (cards (f (heap s ! a)) ! k)
           \<and> revealed (cards (f (heap s ! a)) ! k) = revealed (cards (heap s ! a) ! k)"
  shows "keepsMatched s (modify a f s)"
  using assms by (simp add: keepsMatched_def nth_modify)

lemma keeps_timeouts [simp]: "keepsMatched s (s\<lparr>timeouts := ts\<rparr>)"
  by (simp add: keepsMatched_def)

lemma keeps_reveal:
  assumes "\<not> matched (cards (heap s ! a) ! idx)"
  shows "keepsMatched s (modify a (reveal idx) s)"
  using assms
  by (intro keeps_modify) (auto simp: reveal_def setRevealed_def nth_modify)

lemma keeps_isPair: "keepsMatched s (modify a (isPair k x idx) s)"
  by (intro keeps_modify) (auto simp: isPair_def Let_def setMatched_def nth_modify)

lemma keeps_unreveal:
  assumes "\<not> matched (cards (heap s ! a) ! x)" "\<not> matched (cards (heap s ! a) ! y)"
  shows "keepsMatched s (modify a (unreveal x y) s)"
  using assms
  by (intro keeps_modify) (auto simp: unreveal_def setRevealed_def nth_modify)

lemma keeps_flip:
  assumes wf: "wellFormed s" and f: "flip sid idx cb s = Inr (s', ev)"
  shows "keepsMatched s s'"
proof (cases "rooms s")
  case None
  then show ?thesis using f by (simp add: flip_unregistered)
next
  case (Some a)
  then have True: "a < length (heap s)" using wf by (simp add: wellFormed_def pointerOk_def)
  show ?thesis
  proof -
    from f Some True show ?thesis
    proof (cases rule: flip_cases)
      case rejected
      then show ?thesis by simp
    next
      case first
      then show ?thesis using keeps_reveal by simp
    next
      case (mismatch x)
      then show ?thesis
        using keeps_trans [OF keeps_reveal keeps_timeouts] by simp
    next
      case (match x k ev4)
      let ?s1 = "modify a (reveal idx) s"
      let ?s4 = "modify a (isPair k x idx) ?s1"
      have "keepsMatched s ?s4"
        using keeps_trans [OF keeps_reveal keeps_isPair] match(3) by blast
      moreover have "quiet ?s4 s'"
        using quiet_trans [OF pauseTimer_quiet checkGameOver_quiet(1) [OF match(6)]] .
      ultimately show ?thesis using keeps_trans keeps_quiet by blast
    qed
  qed
qed

lemma keeps_fireTimeout:
  assumes wf: "wellFormed s" and t: "fireTimeout s = (s', ev)"
  shows "keepsMatched s s'"
proof (cases "timeouts s")
  case Nil
  then show ?thesis using t by (simp add: fireTimeout_shape)
next
  case (Cons e rest)
  obtain d a x y where e: "e = (d, a, x, y)" by (cases e) auto
  let ?s0 = "s\<lparr>timeouts := rest\<rparr>"
  let ?s1 = "modify a (unreveal x y) ?s0"
  have s': "s' = modify a (\<lambda>r. r\<lparr>log_r := Info (noMatchText (nameOrUndefined r)) # log_r r\<rparr>) ?s1"
    using t Cons e by (simp add: fireTimeout_shape Let_def)
  have "(d, a, x, y) \<in> set (timeouts s)" using Cons e by simp
  then have un: "\<not> matched (cards (heap ?s0 ! a) ! x)" "\<not> matched (cards (heap ?s0 ! a) ! y)"
    using wf_pending(4,6) [OF wf] by simp_all
  have "keepsMatched s ?s0" by simp
  moreover have "keepsMatched ?s0 ?s1" by (rule keeps_unreveal [OF un])
  moreover have "keepsMatched ?s1 s'"
    unfolding s' by (rule keeps_quiet) (simp add: quiet_modify)
  ultimately show ?thesis using keeps_trans by blast
qed

lemma keeps_step:
  assumes wf: "wellFormed s" and st: "step s i = Inr (s', ev)"
  shows "keepsMatched s s'"
proof (cases i)
  case (Connect sid nm rnd)
  then have c: "connection sid nm rnd s = (s', ev)" using st by simp
  show ?thesis
  proof (cases "rooms s")
    case None
    then show ?thesis using keeps_grown [OF connection_grown [OF c]] by simp
  next
    case (Some a)
    then show ?thesis using keeps_quiet [OF connection_quiet(1) [OF c]] by simp
  qed
next
  case (Rematch sid cb rnd)
  then have "rematch sid cb rnd s = (s', ev)" using st by simp
  then show ?thesis using rematch_cases(1) keeps_grown keeps_refl by blast
next
  case (Flip sid idx cb)
  then show ?thesis using keeps_flip [OF wf] st by simp
next
  case (AskQuestion sid body cb)
  then have "askQuestion sid body cb s = (s', ev)" using st by simp
  then show ?thesis using keeps_quiet askQuestion_quiet(1) by blast
next
  case (AnswerQuestion sid body cb)
  then have "answerQuestion sid body cb s = (s', ev)" using st by simp
  then show ?thesis using keeps_quiet answerQuestion_quiet(1) by blast
next
  case (Disconnect sid)
  then have "disconnect sid s = (s', ev)" using st by simp
  then show ?thesis using keeps_quiet disconnect_quiet(1) by blast
next
  case (Tick h)
  then show ?thesis using keeps_quiet tick_quiet(1) st by simp
next
  case Timeout
  then show ?thesis using keeps_fireTimeout [OF wf] st by simp
qed

lemma keeps_exec:
  "wellFormed s \<Longrightarrow> exec s ins = Inr (s', ev) \<Longrightarrow> keepsMatched s s'"
proof (induction ins arbitrary: s ev)
  case Nil
  then show ?case by simp
next
  case (Cons i ins)
  from Cons.prems(2) obtain s1 ev1 ev2 where
    st: "step s i = Inr (s1, ev1)" and ex: "exec s1 ins = Inr (s', ev2)"
    by (auto split: sum.splits)
  have "keepsMatched s s1" by (rule keeps_step [OF Cons.prems(1) st])
  moreover have "keepsMatched s1 s'" using Cons.IH [OF wf_step [OF Cons.prems(1) st] ex] .
  ultimately show ?case by (rule keeps_trans)
qed

lemma flip_matched_rejected:
  assumes "rooms s = Some a" "matched (cards (heap s ! a) ! k)"
  shows "flip sid k cb s = Inr (s, [])
         \<or> flip sid k cb s = Inr (s, ack cb sid False (Some ''Not your turn.''))"
  using assms by (simp add: flip_def Let_def)

text \<open>
  C7. In a reachable state, a matched card of any room object stays matched and keeps
  its revealed flag through every later run of inputs; a flip that targets a matched
  card of the registered room returns with the state unchanged (silently, or with the
  not-your-turn acknowledgement); and the two cards of every pending flip-back are
  unmatched, so a flip-back never resets a matched card.
\<close>

theorem matched_is_final:
  assumes "reachable s" and "a < length (heap s)" and "k < length (cards (heap s ! a))"
    and "matched (cards (heap s ! a) ! k)"
  shows "(\<forall>ins s' ev. exec s ins = Inr (s', ev) \<longrightarrow>
            a < length (heap s') \<and> k < length (cards (heap s' ! a))
            \<and> matched (cards (heap s' ! a) ! k)
            \<and> revealed (cards (heap s' ! a) ! k) = revealed (cards (heap s ! a) ! k))
    \<and> (rooms s = Some a \<longrightarrow>
         (\<forall>sid cb. flip sid k cb s = Inr (s, [])
            \<or> flip sid k cb s = Inr (s, ack cb sid False (Some ''Not your turn.''))))
    \<and> (\<forall>d b x y. (d, b, x, y) \<in> set (timeouts s) \<longrightarrow>
          \<not> matched (cards (heap s ! b) ! x) \<and> \<not> matched (cards (heap s ! b) ! y))"
proof -
  have wf: "wellFormed s" by (rule reachable_wf [OF assms(1)])
  have later: "a < length (heap s') \<and> k < length (cards (heap s' ! a))
            \<and> matched (cards (heap s' ! a) ! k)
            \<and> revealed (cards (heap s' ! a) ! k) = revealed (cards (heap s ! a) ! k)"
    if "exec s ins = Inr (s', ev)" for ins s' ev
    using keeps_exec [OF wf that] assms(2,3,4) by (simp add: keepsMatched_def)
  have pend: "\<not> matched (cards (heap s ! b) ! x) \<and> \<not> matched (cards (heap s ! b) ! y)"
    if "(d, b, x, y) \<in> set (timeouts s)" for d b x y
    using wf_pending(4,6) [OF wf that] by simp
  show ?thesis
    using later flip_matched_rejected [of s a k] assms(4) pend by blast
qed

theorem matched_is_final_witness:
  "reachable afterMatch
   \<and> matched (cards (heap afterMatch ! 0) ! 0)
   \<and> revealed (cards (heap afterMatch ! 0) ! 0)
   \<and> flip ''A'' 0 True afterMatch = Inr (afterMatch, [])
   \<and> (case exec afterMatch afterSecondMismatch of
         Inl e \<Rightarrow> False
       | Inr (s', ev) \<Rightarrow>
           matched (cards (heap s' ! 0) ! 0) \<and> revealed (cards (heap s' ! 0) ! 0)
           \<and> currentPlayer (heap s' ! 0) = 1
           \<and> remaining (timer (heap s' ! 0)) = 179)"
proof -
  have r: "reachable afterMatch" by (simp add: afterMatch_def reachable_after)
  have h: "0 < length (heap afterMatch)" "0 < length (cards (heap afterMatch ! 0))"
    "matched (cards (heap afterMatch ! 0) ! 0)"
    by code_simp+
  have c: "revealed (cards (heap afterMatch ! 0) ! 0)"
    "flip ''A'' 0 True afterMatch = Inr (afterMatch, [])"
    by code_simp+
  have "case exec afterMatch afterSecondMismatch of
          Inl e \<Rightarrow> False
        | Inr (s', ev) \<Rightarrow>
            currentPlayer (heap s' ! 0) = 1 \<and> remaining (timer (heap s' ! 0)) = 179"
    by code_simp
  then obtain s' ev where x': "exec afterMatch afterSecondMismatch = Inr (s', ev)"
    "currentPlayer (heap s' ! 0) = 1" "remaining (timer (heap s' ! 0)) = 179"
    by (auto split: sum.splits)
  have "matched (cards (heap s' ! 0) ! 0)
        \<and> revealed (cards (heap s' ! 0) ! 0) = revealed (cards (heap afterMatch ! 0) ! 0)"
    using matched_is_final [OF r h] x'(1) by blast
  then show ?thesis using r h(3) c x' by simp
qed

subsection \<open>One game is declared over at most once\<close>

lemma sameGame_refl [simp]: "sameGame s s"
  by (simp add: sameGame_def)

lemma sameGame_trans: "sameGame s t \<Longrightarrow> sameGame t u \<Longrightarrow> sameGame s u"
  by (auto simp: sameGame_def)

lemma sameGame_quiet: "quiet s s' \<Longrightarrow> sameGame s s'"
  by (simp add: sameGame_def quiet_def)

lemma sameGame_modify:
  assumes "\<And>r. gameOver r \<longrightarrow> gameOver (f r)"
  shows "sameGame s (modify a f s)"
  using assms by (simp add: sameGame_def nth_modify)

lemma sameGame_timeouts [simp]: "sameGame s (s\<lparr>timeouts := ts\<rparr>)"
  by (simp add: sameGame_def)

lemma openGame_sameGame: "sameGame s s' \<Longrightarrow> openGame s' \<le> openGame s"
  by (auto simp: sameGame_def openGame_def split: option.splits)

lemma pointerOk_sameGame: "pointerOk s \<Longrightarrow> sameGame s s' \<Longrightarrow> pointerOk s'"
  by (auto simp: sameGame_def pointerOk_def split: option.splits)

lemma checkGameOver_budget:
  assumes p: "pointerOk s" and c: "checkGameOver s = Inr (s', ev)"
  shows "declared ev + openGame s' \<le> openGame s"
proof (cases "declared ev = 0")
  case True
  then show ?thesis
    using openGame_sameGame [OF sameGame_quiet [OF checkGameOver_quiet(1) [OF c]]] by simp
next
  case False
  then have pos: "0 < declared ev" by simp
  have one: "declared ev \<le> 1" by (rule checkGameOver_quiet(4) [OF c])
  obtain a where a: "rooms s = Some a" "\<not> gameOver (heap s ! a)"
    "a < length (heap s) \<longrightarrow> gameOver (heap s' ! a)"
    using checkGameOver_declared [OF c pos] by blast
  have "a < length (heap s)" using p a(1) by (simp add: pointerOk_def)
  then have "gameOver (heap s' ! a)" using a(3) by simp
  moreover have "rooms s' = Some a" using checkGameOver_quiet(3) [OF c] a(1) by simp
  ultimately have "openGame s' = 0" by (simp add: openGame_def)
  moreover have "openGame s = 1" using a by (simp add: openGame_def)
  ultimately show ?thesis using one by simp
qed

lemma tick_budget:
  assumes p: "pointerOk s" and t: "tick h s = Inr (s', ev)"
  shows "declared ev + openGame s' \<le> openGame s"
proof (cases "map_of (intervals s) h")
  case None
  then show ?thesis using t by (simp add: tick_def)
next
  case (Some a)
  let ?s1 = "modify a (\<lambda>r. r\<lparr>timer := (timer r)\<lparr>remaining := remaining (timer r) - 1\<rparr>\<rparr>) s"
  show ?thesis
  proof (cases "remaining (timer (heap ?s1 ! a)) \<le> 0")
    case False
    then have "s' = ?s1" "declared ev = 0"
      using t Some by (auto simp: tick_def Let_def declared_Cons isGameOverMsg_def)
    moreover have "sameGame s ?s1" by (rule sameGame_modify) simp
    ultimately show ?thesis using openGame_sameGame by simp
  next
    case True
    let ?s4 = "modify a (\<lambda>r. r\<lparr>log_r := Info ''Time is up.'' # log_r r\<rparr>)
                (modify a (\<lambda>r. r\<lparr>timer := (timer r)\<lparr>running := False\<rparr>\<rparr>)
                  (clearInterval (intervalId (timer (heap ?s1 ! a))) ?s1))"
    obtain ev3 where c: "checkGameOver ?s4 = Inr (s', ev3)" and ev: "declared ev = declared ev3"
      using t Some True unfolding tick_def Let_def
      by (auto simp: declared_Cons isGameOverMsg_def split: sum.splits)
    have q: "quiet s ?s4" by (intro quietI) simp_all
    have "declared ev3 + openGame s' \<le> openGame ?s4"
      by (rule checkGameOver_budget [OF pointerOk_sameGame [OF p sameGame_quiet [OF q]] c])
    then show ?thesis using openGame_sameGame [OF sameGame_quiet [OF q]] ev by simp
  qed
qed

lemma sameGame_reveal: "sameGame s (modify a (reveal idx) s)"
  by (rule sameGame_modify) (simp add: reveal_def)

lemma sameGame_isPair: "sameGame s (modify a (isPair k x idx) s)"
  by (rule sameGame_modify) (simp add: isPair_def Let_def)

lemma sameGame_unreveal: "sameGame s (modify a (unreveal x y) s)"
  by (rule sameGame_modify) (simp add: unreveal_def)

lemma flip_budget:
  assumes p: "pointerOk s" and f: "flip sid idx cb s = Inr (s', ev)"
  shows "sameGame s s'" and "declared ev + openGame s' \<le> openGame s"
proof -
  have "sameGame s s' \<and> declared ev + openGame s' \<le> openGame s"
  proof (cases "rooms s")
    case None
    then show ?thesis using f by (simp add: flip_unregistered)
  next
    case (Some a)
    then have a: "a < length (heap s)" using p by (simp add: pointerOk_def)
    from f Some a show ?thesis
    proof (cases rule: flip_cases)
      case rejected
      then show ?thesis by simp
    next
      case first
      then show ?thesis using sameGame_reveal openGame_sameGame by simp
    next
      case (mismatch x)
      have "sameGame s s'"
        using sameGame_trans [OF sameGame_reveal sameGame_timeouts] mismatch(5) by simp
      then show ?thesis using mismatch(6) openGame_sameGame by simp
    next
      case (match x k ev4)
      let ?s5 = "fst (pauseTimer (modify a (isPair k x idx) (modify a (reveal idx) s)))"
      let ?s1 = "modify a (reveal idx) s"
      let ?s4 = "modify a (isPair k x idx) ?s1"
      have "sameGame s ?s1" by (rule sameGame_reveal)
      moreover have "sameGame ?s1 ?s4" by (rule sameGame_isPair)
      moreover have "sameGame ?s4 ?s5" by (rule sameGame_quiet [OF pauseTimer_quiet])
      ultimately have s5: "sameGame s ?s5" using sameGame_trans by blast
      have "declared ev4 + openGame s' \<le> openGame ?s5"
        by (rule checkGameOver_budget [OF pointerOk_sameGame [OF p s5] match(6)])
      moreover have "sameGame ?s5 s'"
        by (rule sameGame_quiet [OF checkGameOver_quiet(1) [OF match(6)]])
      ultimately show ?thesis
        using openGame_sameGame [OF s5] sameGame_trans [OF s5] match(7) by simp
    qed
  qed
  then show "sameGame s s'" and "declared ev + openGame s' \<le> openGame s" by simp_all
qed

lemma fireTimeout_budget:
  assumes "fireTimeout s = (s', ev)"
  shows "sameGame s s'" and "declared ev = 0"
proof -
  show "declared ev = 0"
    using assms by (auto simp: fireTimeout_shape Let_def split: list.splits)
  show "sameGame s s'"
  proof (cases "timeouts s")
    case Nil
    then show ?thesis using assms by (simp add: fireTimeout_shape)
  next
    case (Cons e rest)
    obtain d a x y where e: "e = (d, a, x, y)" by (cases e) auto
    have "s' = modify a (\<lambda>r. r\<lparr>log_r := Info (noMatchText (nameOrUndefined r)) # log_r r\<rparr>)
                 (modify a (unreveal x y) (s\<lparr>timeouts := rest\<rparr>))"
      using assms Cons e by (simp add: fireTimeout_shape Let_def)
    moreover have "sameGame s (s\<lparr>timeouts := rest\<rparr>)" by simp
    moreover have "sameGame (s\<lparr>timeouts := rest\<rparr>) (modify a (unreveal x y) (s\<lparr>timeouts := rest\<rparr>))"
      by (rule sameGame_unreveal)
    moreover have "sameGame (modify a (unreveal x y) (s\<lparr>timeouts := rest\<rparr>))
        (modify a (\<lambda>r. r\<lparr>log_r := Info (noMatchText (nameOrUndefined r)) # log_r r\<rparr>)
                 (modify a (unreveal x y) (s\<lparr>timeouts := rest\<rparr>)))"
      by (rule sameGame_modify) simp
    ultimately show ?thesis using sameGame_trans by blast
  qed
qed

lemma step_shape:
  assumes wf: "wellFormed s" and st: "step s i = Inr (s', ev)"
  shows "(sameGame s s' \<and> declared ev + openGame s' \<le> openGame s)
         \<or> (grown s s' \<and> declared ev = 0)"
proof -
  have p: "pointerOk s" using wf by (simp add: wellFormed_def)
  have quietly: ?thesis if "quiet s s'" "declared ev = 0"
    using that openGame_sameGame [OF sameGame_quiet] sameGame_quiet by simp
  show ?thesis
  proof (cases i)
    case (Connect sid nm rnd)
    then have c: "connection sid nm rnd s = (s', ev)" using st by simp
    show ?thesis
    proof (cases "rooms s")
      case None
      then show ?thesis using connection_grown [OF c] connection_silent [OF c] by simp
    next
      case (Some a)
      then show ?thesis using quietly connection_quiet(1) [OF c] connection_silent [OF c] by simp
    qed
  next
    case (Rematch sid cb rnd)
    then have "rematch sid cb rnd s = (s', ev)" using st by simp
    then show ?thesis using rematch_cases [of sid cb rnd s s' ev] quietly by auto
  next
    case (Flip sid idx cb)
    then show ?thesis using flip_budget [OF p] st by simp
  next
    case (AskQuestion sid body cb)
    then have eq: "askQuestion sid body cb s = (s', ev)" using st by simp
    show ?thesis by (rule quietly [OF askQuestion_quiet(1) [OF eq] askQuestion_quiet(3) [OF eq]])
  next
    case (AnswerQuestion sid body cb)
    then have eq: "answerQuestion sid body cb s = (s', ev)" using st by simp
    show ?thesis by (rule quietly [OF answerQuestion_quiet(1) [OF eq] answerQuestion_quiet(3) [OF eq]])
  next
    case (Disconnect sid)
    then have eq: "disconnect sid s = (s', ev)" using st by simp
    show ?thesis by (rule quietly [OF disconnect_quiet(1) [OF eq] disconnect_quiet(3) [OF eq]])
  next
    case (Tick h)
    then have t: "tick h s = Inr (s', ev)" using st by simp
    show ?thesis using tick_budget [OF p t] sameGame_quiet [OF tick_quiet(1) [OF t]] by simp
  next
    case Timeout
    then have "fireTimeout s = (s', ev)" using st by simp
    then show ?thesis using fireTimeout_budget openGame_sameGame by fastforce
  qed
qed

lemma exec_split:
  assumes "exec s (i # ins) = Inr (s', ev)"
  obtains s1 ev1 ev2 where "step s i = Inr (s1, ev1)" "exec s1 ins = Inr (s', ev2)" "ev = ev1 @ ev2"
  using assms by (auto split: sum.splits)

lemma exec_budget:
  "wellFormed s \<Longrightarrow> exec s ins = Inr (s', ev) \<Longrightarrow> length (heap s') = length (heap s) \<Longrightarrow>
     sameGame s s' \<and> declared ev + openGame s' \<le> openGame s"
proof (induction ins arbitrary: s ev)
  case Nil
  then show ?case by simp
next
  case (Cons i ins)
  from Cons.prems(2) obtain s1 ev1 ev2 where
    st: "step s i = Inr (s1, ev1)" and ex: "exec s1 ins = Inr (s', ev2)" and ev: "ev = ev1 @ ev2"
    by (rule exec_split)
  have wf1: "wellFormed s1" by (rule wf_step [OF Cons.prems(1) st])
  have "length (heap s1) \<le> length (heap s')"
    using keeps_exec [OF wf1 ex] by (simp add: keepsMatched_def)
  then have notgrown: "\<not> grown s s1" using Cons.prems(3) by (auto simp: grown_def)
  then have 1: "sameGame s s1" "declared ev1 + openGame s1 \<le> openGame s"
    using step_shape [OF Cons.prems(1) st] by auto
  then have "length (heap s') = length (heap s1)" using Cons.prems(3) by (simp add: sameGame_def)
  then have 2: "sameGame s1 s'" "declared ev2 + openGame s' \<le> openGame s1"
    using Cons.IH [OF wf1 ex] by simp_all
  show ?case using 1 2 ev sameGame_trans by auto
qed

lemma over_step:
  assumes wf: "wellFormed s" and st: "step s i = Inr (s', ev)"
    and a: "a < length (heap s)" "gameOver (heap s ! a)"
  shows "a < length (heap s') \<and> gameOver (heap s' ! a)"
  using step_shape [OF wf st] a by (auto simp: sameGame_def grown_def)

lemma over_exec:
  "wellFormed s \<Longrightarrow> exec s ins = Inr (s', ev) \<Longrightarrow> a < length (heap s) \<Longrightarrow>
     gameOver (heap s ! a) \<Longrightarrow> a < length (heap s') \<and> gameOver (heap s' ! a)"
proof (induction ins arbitrary: s ev)
  case Nil
  then show ?case by simp
next
  case (Cons i ins)
  from Cons.prems(2) obtain s1 ev1 ev2 where
    st: "step s i = Inr (s1, ev1)" and ex: "exec s1 ins = Inr (s', ev2)"
    by (rule exec_split)
  have wf1: "wellFormed s1" by (rule wf_step [OF Cons.prems(1) st])
  show ?case
    using Cons.IH [OF wf1 ex] over_step [OF Cons.prems(1) st Cons.prems(3,4)] by simp
qed

lemma flip_over: "rooms s = Some a \<Longrightarrow> gameOver (heap s ! a) \<Longrightarrow> flip sid idx cb s = Inr (s, [])"
  by (simp add: flip_def)

lemma connection_over:
  assumes "rooms s = Some a" "a < length (heap s)" "gameOver (heap s ! a)"
  shows "timer (heap (fst (connection sid nm rnd s)) ! a) = timer (heap s ! a)"
    and "intervals (fst (connection sid nm rnd s)) = intervals s"
  using assms by (auto simp: connection_def Let_def)

lemma answerQuestion_over:
  assumes "rooms s = Some a" "a < length (heap s)" "gameOver (heap s ! a)"
  shows "timer (heap (fst (answerQuestion sid body cb s)) ! a) = timer (heap s ! a)"
    and "intervals (fst (answerQuestion sid body cb s)) = intervals s"
  using answerQuestion_effect [OF assms(1,2) surjective_pairing, of sid body cb] assms(3)
  by simp_all

text \<open>
  C5. From a reachable state, a run that allocates no room object (one game) emits
  the game-over signal at most once. When the registered room's \<open>gameOver\<close> is true:
  the evaluator returns without declaring and without changing anything; every flip
  returns with no event and the state unchanged; \<open>answerQuestion\<close> and a new connection,
  the two places that would start the timer, leave the room's timer and the interval
  tasks as they are; and through every later run the room object stays game over, with
  no game-over signal while no new room is allocated.
\<close>

theorem gameOver_is_final:
  assumes "reachable s"
  shows "(\<forall>ins s' ev. exec s ins = Inr (s', ev) \<and> length (heap s') = length (heap s) \<longrightarrow>
            declared ev \<le> 1)
    \<and> (\<forall>a. rooms s = Some a \<and> gameOver (heap s ! a) \<longrightarrow>
          checkGameOver s = Inr (s, [])
          \<and> (\<forall>sid idx cb. flip sid idx cb s = Inr (s, []))
          \<and> (\<forall>sid body cb.
                timer (heap (fst (answerQuestion sid body cb s)) ! a) = timer (heap s ! a)
                \<and> intervals (fst (answerQuestion sid body cb s)) = intervals s)
          \<and> (\<forall>sid nm rnd.
                timer (heap (fst (connection sid nm rnd s)) ! a) = timer (heap s ! a)
                \<and> intervals (fst (connection sid nm rnd s)) = intervals s)
          \<and> (\<forall>ins s' ev. exec s ins = Inr (s', ev) \<longrightarrow>
                gameOver (heap s' ! a)
                \<and> (length (heap s') = length (heap s) \<longrightarrow> declared ev = 0)))"
proof -
  have wf: "wellFormed s" by (rule reachable_wf [OF assms])
  have once: "declared ev \<le> 1"
    if "exec s ins = Inr (s', ev) \<and> length (heap s') = length (heap s)" for ins s' ev
  proof -
    have "declared ev + openGame s' \<le> openGame s" using exec_budget [OF wf] that by blast
    moreover have "openGame s \<le> 1" by (simp add: openGame_def split: option.splits)
    ultimately show ?thesis by simp
  qed
  have over: "checkGameOver s = Inr (s, [])
          \<and> (\<forall>sid idx cb. flip sid idx cb s = Inr (s, []))
          \<and> (\<forall>sid body cb.
                timer (heap (fst (answerQuestion sid body cb s)) ! a) = timer (heap s ! a)
                \<and> intervals (fst (answerQuestion sid body cb s)) = intervals s)
          \<and> (\<forall>sid nm rnd.
                timer (heap (fst (connection sid nm rnd s)) ! a) = timer (heap s ! a)
                \<and> intervals (fst (connection sid nm rnd s)) = intervals s)
          \<and> (\<forall>ins s' ev. exec s ins = Inr (s', ev) \<longrightarrow>
                gameOver (heap s' ! a)
                \<and> (length (heap s') = length (heap s) \<longrightarrow> declared ev = 0))"
    if "rooms s = Some a \<and> gameOver (heap s ! a)" for a
  proof -
    have r: "rooms s = Some a" and g: "gameOver (heap s ! a)" using that by simp_all
    have a: "a < length (heap s)" using wf r by (simp add: wellFormed_def pointerOk_def)
    have zero: "openGame s = 0" using r g by (simp add: openGame_def)
    have run: "gameOver (heap s' ! a) \<and> (length (heap s') = length (heap s) \<longrightarrow> declared ev = 0)"
      if ex: "exec s ins = Inr (s', ev)" for ins s' ev
      using over_exec [OF wf ex a g] exec_budget [OF wf ex] zero by auto
    show ?thesis
      using checkGameOver_over [OF r g] flip_over [OF r g] answerQuestion_over [OF r a g]
        connection_over [OF r a g] run
      by blast
  qed
  show ?thesis using once over by blast
qed

theorem gameOver_is_final_witness:
  "reachable (after twoPlayers)
   \<and> (case exec (after twoPlayers) (allPairs @ afterTheEnd) of
         Inl e \<Rightarrow> False
       | Inr (s', ev) \<Rightarrow> length (heap s') = length (heap (after twoPlayers)) \<and> declared ev = 1)
   \<and> reachable playedOut
   \<and> rooms playedOut = Some 0
   \<and> gameOver (heap playedOut ! 0)
   \<and> checkGameOver playedOut = Inr (playedOut, [])
   \<and> flip ''B'' 3 True playedOut = Inr (playedOut, [])
   \<and> timer (heap (fst (answerQuestion ''B'' ''blue'' True playedOut)) ! 0) = timer (heap playedOut ! 0)
   \<and> (case exec playedOut afterTheEnd of
         Inl e \<Rightarrow> False
       | Inr (s', ev) \<Rightarrow>
           gameOver (heap s' ! 0) \<and> declared ev = 0 \<and> \<not> running (timer (heap s' ! 0)))"
proof -
  have r1: "reachable (after twoPlayers)" by (rule reachable_after)
  have r2: "reachable playedOut" by (simp add: playedOut_def reachable_after)
  have e1: "case exec (after twoPlayers) (allPairs @ afterTheEnd) of
         Inl e \<Rightarrow> False
       | Inr (s', ev) \<Rightarrow> length (heap s') = length (heap (after twoPlayers)) \<and> declared ev = 1"
    by code_simp
  have "case exec init (twoPlayers @ allPairs) of
          Inl e \<Rightarrow> False
        | Inr (p, ev0) \<Rightarrow>
            rooms p = Some 0 \<and> gameOver (heap p ! 0)
            \<and> (case exec p afterTheEnd of
                  Inl e \<Rightarrow> False
                | Inr (s', ev) \<Rightarrow>
                    length (heap s') = length (heap p) \<and> \<not> running (timer (heap s' ! 0)))"
    by code_simp
  then obtain p ev0 s' ev where
    run: "exec init (twoPlayers @ allPairs) = Inr (p, ev0)"
    and p: "rooms p = Some 0" "gameOver (heap p ! 0)"
    and x0: "exec p afterTheEnd = Inr (s', ev)" "length (heap s') = length (heap p)"
      "\<not> running (timer (heap s' ! 0))"
    by (auto split: sum.splits)
  have po: "playedOut = p" using after_eq [OF run] by (simp add: playedOut_def)
  have h: "rooms playedOut = Some 0" "gameOver (heap playedOut ! 0)" using p po by simp_all
  have x: "exec playedOut afterTheEnd = Inr (s', ev)"
    "length (heap s') = length (heap playedOut)" "\<not> running (timer (heap s' ! 0))"
    using x0 po by simp_all
  note T = gameOver_is_final [OF r2]
  have over: "checkGameOver playedOut = Inr (playedOut, [])"
    "flip ''B'' 3 True playedOut = Inr (playedOut, [])"
    "timer (heap (fst (answerQuestion ''B'' ''blue'' True playedOut)) ! 0) = timer (heap playedOut ! 0)"
    "gameOver (heap s' ! 0) \<and> declared ev = 0"
    using T h x(1,2) by blast+
  show ?thesis using r1 r2 h e1 over x by simp
qed

subsection \<open>The end-of-game evaluator\<close>

lemma pauseTimer_rooms [simp]: "rooms (fst (pauseTimer s)) = rooms s"
  by (simp add: pauseTimer_def Let_def split: option.splits)

lemma pauseTimer_length [simp]: "length (heap (fst (pauseTimer s))) = length (heap s)"
  using pauseTimer_quiet [of s] by (simp add: quiet_def)

lemma checkGameOver_two:
  assumes cur: "rooms s = Some a" "a < length (heap s)"
    and two: "length (players (heap s ! a)) = 2"
    and live: "\<not> gameOver (heap s ! a)"
  defines "r \<equiv> heap s ! a"
  defines "p0 \<equiv> players r ! 0" and "p1 \<equiv> players r ! 1"
  defines "byCount \<equiv> matches p0 + matches p1 = 10"
  defines "winner \<equiv> (if matches p0 > matches p1 then name p0
                      else if matches p1 > matches p0 then name p1 else tieName)"
  defines "r' \<equiv> r\<lparr>timer := (timer r)\<lparr>running := (if byCount then False else running (timer r))\<rparr>,
                    gameOver := True\<rparr>"
  defines "s' \<equiv> (if byCount \<and> running (timer r) then clearInterval (intervalId (timer r)) s else s)
                   \<lparr>heap := (heap s)[a := r']\<rparr>"
  shows "checkGameOver s =
           (if byCount \<or> remaining (timer r) \<le> 0
            then Inr (s', (if byCount \<and> running (timer r) then [(ToRoom ROOM_ID, TimerPaused)] else [])
                          @ [(ToRoom ROOM_ID, GameOverMsg winner)])
            else Inr (s, []))"
proof -
  have m: "matchesOr0 (heap s ! a) 0 = matches (players (heap s ! a) ! 0)"
    "matchesOr0 (heap s ! a) 1 = matches (players (heap s ! a) ! 1)"
    using two by (simp_all add: matchesOr0_def)
  have tm: "\<And>tm. tm\<lparr>running := running tm\<rparr> = tm"
    "\<And>tm. \<not> running tm \<Longrightarrow> tm\<lparr>running := False\<rparr> = tm" by simp_all
  show ?thesis
    unfolding s'_def r'_def winner_def byCount_def p0_def p1_def r_def
    using cur two live
    by (simp add: checkGameOver_def Let_def matchesOr0_def tm pauseTimer_def modify_def
        clearInterval_def)
qed

lemma flip_declared:
  assumes wf: "wellFormed s" and f: "flip sid idx cb s = Inr (s', ev)" and d: "0 < declared ev"
  shows "\<exists>c. rooms s' = Some c \<and> gameOver (heap s' ! c) \<and> \<not> running (timer (heap s' ! c))"
proof (cases "rooms s")
  case None
  then show ?thesis using f d by (simp add: flip_unregistered)
next
  case (Some a)
  then have a: "a < length (heap s)" using wf by (simp add: wellFormed_def pointerOk_def)
  from f Some a show ?thesis
  proof (cases rule: flip_cases)
    case rejected
    then show ?thesis using d by simp
  next
    case first
    then show ?thesis using d by simp
  next
    case (mismatch x)
    then show ?thesis using d by simp
  next
    case (match x k ev4)
    let ?s4 = "modify a (isPair k x idx) (modify a (reveal idx) s)"
    let ?s5 = "fst (pauseTimer ?s4)"
    have r5: "rooms ?s5 = Some a" and l5: "a < length (heap ?s5)" using Some a by simp_all
    have stopped: "\<not> running (timer (heap ?s5 ! a))"
      using pauseTimer_stops [of ?s4 a] Some a by simp
    obtain c where c: "rooms ?s5 = Some c"
      "c < length (heap ?s5) \<longrightarrow> gameOver (heap s' ! c)"
      "c < length (heap ?s5) \<longrightarrow> \<not> running (timer (heap s' ! c))
         \<or> (remaining (timer (heap ?s5 ! c)) \<le> 0 \<and> running (timer (heap ?s5 ! c)))"
      using checkGameOver_declared [OF match(6)] d match(7) by auto
    have "c = a" using c(1) r5 by simp
    moreover have "rooms s' = Some a" using checkGameOver_quiet(3) [OF match(6)] r5 by simp
    ultimately show ?thesis using c(2,3) l5 stopped by auto
  qed
qed

lemma tick_declared:
  assumes wf: "wellFormed s" and t: "tick h s = Inr (s', ev)" and d: "0 < declared ev"
  shows "\<exists>c. rooms s' = Some c \<and> gameOver (heap s' ! c) \<and> \<not> running (timer (heap s' ! c))"
proof (cases "map_of (intervals s) h")
  case None
  then show ?thesis using t d by (simp add: tick_def)
next
  case (Some a)
  let ?s1 = "modify a (\<lambda>r. r\<lparr>timer := (timer r)\<lparr>remaining := remaining (timer r) - 1\<rparr>\<rparr>) s"
  show ?thesis
  proof (cases "remaining (timer (heap ?s1 ! a)) \<le> 0")
    case False
    then have "declared ev = 0"
      using t Some by (auto simp: tick_def Let_def declared_Cons isGameOverMsg_def)
    then show ?thesis using d by simp
  next
    case True
    let ?s4 = "modify a (\<lambda>r. r\<lparr>log_r := Info ''Time is up.'' # log_r r\<rparr>)
                (modify a (\<lambda>r. r\<lparr>timer := (timer r)\<lparr>running := False\<rparr>\<rparr>)
                  (clearInterval (intervalId (timer (heap ?s1 ! a))) ?s1))"
    obtain ev3 where c: "checkGameOver ?s4 = Inr (s', ev3)" and ev: "declared ev = declared ev3"
      using t Some True unfolding tick_def Let_def
      by (auto simp: declared_Cons isGameOverMsg_def split: sum.splits)
    obtain c' where c': "rooms ?s4 = Some c'" "\<not> gameOver (heap ?s4 ! c')"
      "c' < length (heap ?s4) \<longrightarrow> gameOver (heap s' ! c')"
      "c' < length (heap ?s4) \<longrightarrow> \<not> running (timer (heap s' ! c'))
         \<or> (remaining (timer (heap ?s4 ! c')) \<le> 0 \<and> running (timer (heap ?s4 ! c')))"
      using checkGameOver_declared [OF c] d ev by auto
    have rs: "rooms s = Some c'" using c'(1) by simp
    then have len: "c' < length (heap s)" using wf by (simp add: wellFormed_def pointerOk_def)
    have r': "rooms s' = Some c'" using checkGameOver_quiet(3) [OF c] c'(1) by simp
    have "\<not> (remaining (timer (heap ?s4 ! c')) \<le> 0 \<and> running (timer (heap ?s4 ! c')))"
    proof (cases "c' = a")
      case True
      then show ?thesis using len by (simp add: nth_modify)
    next
      case False
      then have same: "heap ?s4 ! c' = heap s ! c'" by (simp add: nth_modify)
      have "remaining (timer (heap s ! c')) \<le> 0 \<longrightarrow> gameOver (heap s ! c')"
        using wf rs by (simp add: wellFormed_def expiredIsOver_def)
      then show ?thesis using c'(2) same by auto
    qed
    then show ?thesis using c'(3,4) len r' by auto
  qed
qed

lemma step_declared:
  assumes wf: "wellFormed s" and st: "step s i = Inr (s', ev)" and d: "0 < declared ev"
  shows "\<exists>c. rooms s' = Some c \<and> gameOver (heap s' ! c) \<and> \<not> running (timer (heap s' ! c))"
proof (cases i)
  case (Connect sid nm rnd)
  then show ?thesis using st d connection_silent [of sid nm rnd s s' ev] by simp
next
  case (Rematch sid cb rnd)
  then show ?thesis using st d rematch_cases(2) [of sid cb rnd s s' ev] by simp
next
  case (Flip sid idx cb)
  then show ?thesis using flip_declared [OF wf _ d] st by simp
next
  case (AskQuestion sid body cb)
  then show ?thesis using st d askQuestion_quiet(3) [of sid body cb s s' ev] by simp
next
  case (AnswerQuestion sid body cb)
  then show ?thesis using st d answerQuestion_quiet(3) [of sid body cb s s' ev] by simp
next
  case (Disconnect sid)
  then show ?thesis using st d disconnect_quiet(3) [of sid s s' ev] by simp
next
  case (Tick h)
  then show ?thesis using tick_declared [OF wf _ d] st by simp
next
  case Timeout
  then show ?thesis using st d fireTimeout_budget(2) [of s s' ev] by simp
qed

lemma tick_expiry:
  assumes "map_of (intervals t) h = Some b" "b < length (heap t)"
    and "remaining (timer (heap t ! b)) \<le> 1"
  defines "rb \<equiv> (heap t ! b)
                   \<lparr>timer := (timer (heap t ! b))
                              \<lparr>remaining := remaining (timer (heap t ! b)) - 1, running := False\<rparr>,
                    log_r := Info ''Time is up.'' # log_r (heap t ! b)\<rparr>"
  defines "t4 \<equiv> (clearInterval (intervalId (timer (heap t ! b))) t)\<lparr>heap := (heap t)[b := rb]\<rparr>"
  defines "ev2 \<equiv> [(ToRoom ROOM_ID, TimerMsg (remaining (timer (heap t ! b)) - 1)),
                   (ToRoom ROOM_ID, TimeUp)] @ broadcastState t4"
  shows "tick h t =
           (case checkGameOver t4 of
              Inl (e, ev3) \<Rightarrow> Inl (e, ev2 @ ev3)
            | Inr (t5, ev3) \<Rightarrow> Inr (t5, ev2 @ ev3))"
  using assms(1,2,3)
  unfolding tick_def Let_def
  by (simp add: modify_def clearInterval_def ev2_def t4_def rb_def split: sum.splits prod.splits)

text \<open>
  With fewer than two players the evaluator throws as soon as it has something to
  declare: its first comparison reads \<open>room.players[1].matches\<close>.
\<close>

lemma checkGameOver_one_player:
  assumes "rooms s = Some a" "\<not> gameOver (heap s ! a)" "length (players (heap s ! a)) < 2"
    and "matchesOr0 (heap s ! a) 0 + matchesOr0 (heap s ! a) 1 = 10
         \<or> remaining (timer (heap s ! a)) \<le> 0"
  shows "\<exists>ev. checkGameOver s = Inl (TypeError, ev) \<and> declared ev = 0"
  using assms
  by (auto simp: checkGameOver_def Let_def pauseTimer_def declared_def isGameOverMsg_def
           split: prod.splits)

text \<open>
  C2. With two players the evaluator declares as described (the lemmas above). With
  one player it does not: \<open>flip\<close> lets a lone player play, and \<open>answerQuestion\<close> starts
  the clock of a room with one player. Ann, alone in the room, has found nine pairs
  and flips the last card: the state is broadcast twice, she is asked for a question,
  and then the evaluator, entered with ten matches and \<open>gameOver\<close> false, throws; no
  game-over signal is sent. In the other run Ann has started the clock by answering;
  the tick that brings the remaining time to zero sends the time and \<open>timeUp\<close>, and
  then the evaluator throws, again without a game-over signal.
\<close>

theorem checkGameOver_lone_player_throws:
  "rooms loneBeforeLast = Some 0
   \<and> map name (players (heap loneBeforeLast ! 0)) = [''Ann'']
   \<and> map matches (players (heap loneBeforeLast ! 0)) = [9]
   \<and> flipped (heap loneBeforeLast ! 0) = [18]
   \<and> \<not> gameOver (heap loneBeforeLast ! 0)
   \<and> (case step loneBeforeLast (Flip ''A'' 19 True) of
         Inl (e, ev) \<Rightarrow>
           e = TypeError \<and> declared ev = 0
           \<and> map fst ev = [ToRoom ROOM_ID, ToRoom ROOM_ID, ToSocket ''A'']
       | Inr x \<Rightarrow> False)
   \<and> map matches (players (heap loneEntry ! 0)) = [10]
   \<and> list_all matched (cards (heap loneEntry ! 0))
   \<and> \<not> gameOver (heap loneEntry ! 0)
   \<and> checkGameOver loneEntry = Inl (TypeError, [])
   \<and> rooms loneClock = Some 0
   \<and> map name (players (heap loneClock ! 0)) = [''Ann'']
   \<and> timer (heap loneClock ! 0) = \<lparr>remaining = 1, running = True, intervalId = Some 0\<rparr>
   \<and> \<not> gameOver (heap loneClock ! 0)
   \<and> (case step loneClock (Tick 0) of
         Inl (e, ev) \<Rightarrow>
           e = TypeError \<and> declared ev = 0
           \<and> take 2 ev = [(ToRoom ROOM_ID, TimerMsg 0), (ToRoom ROOM_ID, TimeUp)]
       | Inr x \<Rightarrow> False)"
proof -
  have m: "case exec init (lonePlayer @ butlast allPairs) of
          Inl e \<Rightarrow> False
        | Inr (b, ev0) \<Rightarrow>
            rooms b = Some 0
            \<and> map name (players (heap b ! 0)) = [''Ann'']
            \<and> map matches (players (heap b ! 0)) = [9]
            \<and> flipped (heap b ! 0) = [18]
            \<and> \<not> gameOver (heap b ! 0)
            \<and> (case step b (Flip ''A'' 19 True) of
                  Inl (e, ev) \<Rightarrow>
                    e = TypeError \<and> declared ev = 0
                    \<and> map fst ev = [ToRoom ROOM_ID, ToRoom ROOM_ID, ToSocket ''A'']
                | Inr x \<Rightarrow> False)
            \<and> (let en = modify 0 (isPair 0 18 19) (modify 0 (reveal 19) b) in
                map matches (players (heap en ! 0)) = [10]
                \<and> list_all matched (cards (heap en ! 0))
                \<and> \<not> gameOver (heap en ! 0)
                \<and> checkGameOver en = Inl (TypeError, []))"
    by code_simp
  have t: "case exec init (lonePlayer @ AnswerQuestion ''A'' ''hi'' True # replicate 179 (Tick 0)) of
          Inl e \<Rightarrow> False
        | Inr (c, ev0) \<Rightarrow>
            rooms c = Some 0
            \<and> map name (players (heap c ! 0)) = [''Ann'']
            \<and> timer (heap c ! 0) = \<lparr>remaining = 1, running = True, intervalId = Some 0\<rparr>
            \<and> \<not> gameOver (heap c ! 0)
            \<and> (case step c (Tick 0) of
                  Inl (e, ev) \<Rightarrow>
                    e = TypeError \<and> declared ev = 0
                    \<and> take 2 ev = [(ToRoom ROOM_ID, TimerMsg 0), (ToRoom ROOM_ID, TimeUp)]
                | Inr x \<Rightarrow> False)"
    by code_simp
  from m obtain b ev0 where
    rb: "exec init (lonePlayer @ butlast allPairs) = Inr (b, ev0)"
    and fb: "rooms b = Some 0
            \<and> map name (players (heap b ! 0)) = [''Ann'']
            \<and> map matches (players (heap b ! 0)) = [9]
            \<and> flipped (heap b ! 0) = [18]
            \<and> \<not> gameOver (heap b ! 0)
            \<and> (case step b (Flip ''A'' 19 True) of
                  Inl (e, ev) \<Rightarrow>
                    e = TypeError \<and> declared ev = 0
                    \<and> map fst ev = [ToRoom ROOM_ID, ToRoom ROOM_ID, ToSocket ''A'']
                | Inr x \<Rightarrow> False)
            \<and> (let en = modify 0 (isPair 0 18 19) (modify 0 (reveal 19) b) in
                map matches (players (heap en ! 0)) = [10]
                \<and> list_all matched (cards (heap en ! 0))
                \<and> \<not> gameOver (heap en ! 0)
                \<and> checkGameOver en = Inl (TypeError, []))"
    by (auto split: sum.splits)
  from t obtain c ev1 where
    rc: "exec init (lonePlayer @ AnswerQuestion ''A'' ''hi'' True # replicate 179 (Tick 0)) = Inr (c, ev1)"
    and fc: "rooms c = Some 0
            \<and> map name (players (heap c ! 0)) = [''Ann'']
            \<and> timer (heap c ! 0) = \<lparr>remaining = 1, running = True, intervalId = Some 0\<rparr>
            \<and> \<not> gameOver (heap c ! 0)
            \<and> (case step c (Tick 0) of
                  Inl (e, ev) \<Rightarrow>
                    e = TypeError \<and> declared ev = 0
                    \<and> take 2 ev = [(ToRoom ROOM_ID, TimerMsg 0), (ToRoom ROOM_ID, TimeUp)]
                | Inr x \<Rightarrow> False)"
    by (auto split: sum.splits)
  have b: "loneBeforeLast = b" using after_eq [OF rb] by (simp add: loneBeforeLast_def)
  have c: "loneClock = c" using after_eq [OF rc] by (simp add: loneClock_def)
  show ?thesis
    unfolding loneEntry_def b c using fb fc unfolding Let_def by blast
qed
end
